theory Spec2Isabelle
  imports Main "HOL-Library.Sublist" "HOL-Library.AList" "HOL-Library.Multiset"
begin

section \<open>Strings as the snapshot module uses them\<close>

text \<open>
  Strings are \<^typ>\<open>string\<close>; a character stands for one code unit below 256.
  The character classes are those of the regular expressions of the module:
  \<^verbatim>\<open>\s\<close> (white space, line terminators included), \<^verbatim>\<open>\w\<close>, \<^verbatim>\<open>\d\<close>, and the
  line terminators that \<^verbatim>\<open>.\<close> refuses.
\<close>

definition isSpace :: "char \<Rightarrow> bool" where
  "isSpace c = (c \<in> set [CHR '' '', CHR 0x09, CHR 0x0A, CHR 0x0B, CHR 0x0C, CHR 0x0D, CHR 0xA0])"

definition isDigit :: "char \<Rightarrow> bool" where
  "isDigit c = (c \<in> set ''0123456789'')"

definition isWord :: "char \<Rightarrow> bool" where
  "isWord c = (c \<in> set ''abcdefghijklmnopqrstuvwxyzABCDEFGHIJKLMNOPQRSTUVWXYZ0123456789_'')"

definition isLineTerminator :: "char \<Rightarrow> bool" where
  "isLineTerminator c = (c = CHR 0x0A \<or> c = CHR 0x0D)"

definition toLowerChar :: "char \<Rightarrow> char" where
  "toLowerChar c =
     (case map_of (zip ''ABCDEFGHIJKLMNOPQRSTUVWXYZ'' ''abcdefghijklmnopqrstuvwxyz'') c of
        Some l \<Rightarrow> l
      | None \<Rightarrow> c)"

definition toLowerCase :: "string \<Rightarrow> string" where
  "toLowerCase s = map toLowerChar s"

text \<open>\<^verbatim>\<open>s.split('\n')\<close>: never the empty array; \<^verbatim>\<open>''.split('\n')\<close> is \<^verbatim>\<open>['']\<close>.\<close>

fun splitNL :: "string \<Rightarrow> string list" where
  "splitNL [] = [[]]"
| "splitNL (c # cs) =
     (if c = CHR 0x0A then [] # splitNL cs
      else (case splitNL cs of [] \<Rightarrow> [[c]] | l # ls \<Rightarrow> (c # l) # ls))"

text \<open>\<^verbatim>\<open>xs.join(sep)\<close>.\<close>

fun joinWith :: "string \<Rightarrow> string list \<Rightarrow> string" where
  "joinWith sep [] = []"
| "joinWith sep [l] = l"
| "joinWith sep (l # m # ls) = l @ sep @ joinWith sep (m # ls)"

definition joinNL :: "string list \<Rightarrow> string" where
  "joinNL ls = joinWith [CHR 0x0A] ls"

text \<open>\<^verbatim>\<open>s.includes(pat)\<close>, \<^verbatim>\<open>s.startsWith(pat)\<close> and \<^verbatim>\<open>s.endsWith(pat)\<close>.\<close>

fun includesStr :: "string \<Rightarrow> string \<Rightarrow> bool" where
  "includesStr pat [] = (pat = [])"
| "includesStr pat (c # cs) = (prefix pat (c # cs) \<or> includesStr pat cs)"

definition startsWith :: "string \<Rightarrow> string \<Rightarrow> bool" where
  "startsWith pat s = prefix pat s"

definition endsWith :: "string \<Rightarrow> string \<Rightarrow> bool" where
  "endsWith pat s = prefix (rev pat) (rev s)"

text \<open>Decimal rendering of a counter, as a template literal renders a number.\<close>

definition digitChar :: "nat \<Rightarrow> char" where
  "digitChar d = ''0123456789'' ! d"

fun showNat :: "nat \<Rightarrow> string" where
  "showNat n = (if n < 10 then [digitChar n] else showNat (n div 10) @ [digitChar (n mod 10)])"

declare showNat.simps [simp del]

section \<open>The line grammar\<close>

text \<open>
  \<^verbatim>\<open>line.match(/^(\s*-\s*)(\w+)(?:\s+"([^"]*)")?(.*)$/)\<close>.
  The leading white space, the dash, the white space after it and the role are forced
  (each class is followed by a character outside it). The optional name group is tried
  first; what follows the match of the groups must be free of line terminators, since
  \<^verbatim>\<open>.\<close> does not match them and \<^verbatim>\<open>$\<close> is the end of the input. When the name group
  matches but the rest holds a line terminator, the matcher backtracks and tries without
  the group. A match is (prefix, role, name, suffix); the name is \<open>None\<close> where the
  group did not take part (\<^verbatim>\<open>undefined\<close>).
\<close>

definition matchName :: "string \<Rightarrow> (string \<times> string) option" where
  "matchName s =
     (let ws = takeWhile isSpace s; r = dropWhile isSpace s in
      if ws = [] then None
      else (case r of
              [] \<Rightarrow> None
            | q # r' \<Rightarrow>
                if q \<noteq> CHR 0x22 then None
                else (case dropWhile (\<lambda>c. c \<noteq> CHR 0x22) r' of
                        [] \<Rightarrow> None
                      | _ # rest \<Rightarrow> Some (takeWhile (\<lambda>c. c \<noteq> CHR 0x22) r', rest))))"

definition noLineTerminator :: "string \<Rightarrow> bool" where
  "noLineTerminator s = (\<not> list_ex isLineTerminator s)"

definition matchLine :: "string \<Rightarrow> (string \<times> string \<times> string option \<times> string) option" where
  "matchLine line =
     (let ws1 = takeWhile isSpace line; r1 = dropWhile isSpace line in
      case r1 of
        [] \<Rightarrow> None
      | d # r2 \<Rightarrow>
          if d \<noteq> CHR ''-'' then None
          else
            (let ws2 = takeWhile isSpace r2; r3 = dropWhile isSpace r2;
                 role = takeWhile isWord r3; r4 = dropWhile isWord r3;
                 pre = ws1 @ [CHR ''-''] @ ws2 in
             if role = [] then None
             else (case matchName r4 of
                     Some (nm, r5) \<Rightarrow>
                       if noLineTerminator r5 then Some (pre, role, Some nm, r5)
                       else if noLineTerminator r4 then Some (pre, role, None, r4)
                       else None
                   | None \<Rightarrow>
                       if noLineTerminator r4 then Some (pre, role, None, r4) else None)))"

text \<open>\<^verbatim>\<open>getIndentLevel\<close>: the leading white space, two characters a level.\<close>

definition getIndentLevel :: "string \<Rightarrow> nat" where
  "getIndentLevel line = length (takeWhile isSpace line) div 2"

section \<open>Role taxonomy\<close>

definition INTERACTIVE_ROLES :: "string list" where
  "INTERACTIVE_ROLES =
     [''button'', ''link'', ''textbox'', ''checkbox'', ''radio'', ''combobox'', ''listbox'',
      ''menuitem'', ''menuitemcheckbox'', ''menuitemradio'', ''option'', ''searchbox'',
      ''slider'', ''spinbutton'', ''switch'', ''tab'', ''treeitem'']"

definition CONTENT_ROLES :: "string list" where
  "CONTENT_ROLES =
     [''heading'', ''cell'', ''gridcell'', ''columnheader'', ''rowheader'', ''listitem'',
      ''article'', ''region'', ''main'', ''navigation'']"

definition STRUCTURAL_ROLES :: "string list" where
  "STRUCTURAL_ROLES =
     [''generic'', ''group'', ''list'', ''table'', ''row'', ''rowgroup'', ''grid'', ''treegrid'',
      ''menu'', ''menubar'', ''toolbar'', ''tablist'', ''tree'', ''directory'', ''document'',
      ''application'', ''presentation'', ''none'']"

section \<open>Data model\<close>

text \<open>
  A \<^verbatim>\<open>RefMap\<close> is an object keyed by ref id; its keys are never integer-like, so
  enumeration follows insertion order and an association list with
  \<^const>\<open>AList.update\<close> (keep the place of an existing key, append a new one) is the object.
  The \<^verbatim>\<open>nth\<close> field is optional: \<open>None\<close> once deleted or never written.
\<close>

record RefEntry =
  ref_selector :: string
  ref_role :: string
  ref_name :: "string option"
  ref_nth :: "nat option"

type_synonym RefMap = "(string \<times> RefEntry) list"

record SnapshotOptions =
  interactive :: bool
  cursor :: bool
  maxDepth :: "int option"
  compact :: bool
  selector :: "string option"

text \<open>
  The mutable state of one snapshot call: the module-wide \<^verbatim>\<open>refCounter\<close>, the
  \<^verbatim>\<open>refs\<close> object, and the two maps of the \<^verbatim>\<open>RoleNameTracker\<close>
  (\<^verbatim>\<open>Map\<close> keeps insertion order, too).
\<close>

record SnapState =
  refCounter :: nat
  refs :: RefMap
  counts :: "(string \<times> nat) list"
  refsByKey :: "(string \<times> string list) list"

section \<open>Ref allocator and duplicate tracker\<close>

definition resetRefs :: "SnapState \<Rightarrow> SnapState" where
  "resetRefs st = st\<lparr>refCounter := 0\<rparr>"

definition nextRef :: "SnapState \<Rightarrow> string \<times> SnapState" where
  "nextRef st =
     (CHR ''e'' # showNat (Suc (refCounter st)), st\<lparr>refCounter := Suc (refCounter st)\<rparr>)"

definition createRoleNameTracker :: "SnapState \<Rightarrow> SnapState" where
  "createRoleNameTracker st = st\<lparr>counts := [], refsByKey := []\<rparr>"

definition getKey :: "string \<Rightarrow> string option \<Rightarrow> string" where
  "getKey role name = role @ '':'' @ (case name of None \<Rightarrow> [] | Some n \<Rightarrow> n)"

definition getNextIndex :: "string \<Rightarrow> string option \<Rightarrow> SnapState \<Rightarrow> nat \<times> SnapState" where
  "getNextIndex role name st =
     (let key = getKey role name;
          current = (case map_of (counts st) key of None \<Rightarrow> 0 | Some c \<Rightarrow> c)
      in (current, st\<lparr>counts := AList.update key (current + 1) (counts st)\<rparr>))"

definition trackRef :: "string \<Rightarrow> string option \<Rightarrow> string \<Rightarrow> SnapState \<Rightarrow> SnapState" where
  "trackRef role name ref st =
     (let key = getKey role name;
          rs = (case map_of (refsByKey st) key of None \<Rightarrow> [] | Some r \<Rightarrow> r)
      in st\<lparr>refsByKey := AList.update key (rs @ [ref]) (refsByKey st)\<rparr>)"

definition getDuplicateKeys :: "SnapState \<Rightarrow> string list" where
  "getDuplicateKeys st = map fst (filter (\<lambda>kr. length (snd kr) > 1) (refsByKey st))"

text \<open>\<^verbatim>\<open>removeNthFromNonDuplicates\<close>: the keys and their order stay.\<close>

definition removeNthFromNonDuplicates :: "SnapState \<Rightarrow> SnapState" where
  "removeNthFromNonDuplicates st =
     (let duplicateKeys = getDuplicateKeys st in
      st\<lparr>refs := map (\<lambda>(ref, data).
                if getKey (ref_role data) (ref_name data) \<notin> set duplicateKeys
                then (ref, data\<lparr>ref_nth := None\<rparr>)
                else (ref, data)) (refs st)\<rparr>)"

section \<open>Line classifier\<close>

text \<open>A name is truthy when it is present and not the empty string.\<close>

definition truthy :: "string option \<Rightarrow> bool" where
  "truthy name = (case name of None \<Rightarrow> False | Some n \<Rightarrow> n \<noteq> [])"

definition escapeQuotes :: "string \<Rightarrow> string" where
  "escapeQuotes n = concat (map (\<lambda>c. if c = CHR 0x22 then [CHR 0x5C, CHR 0x22] else [c]) n)"

definition buildSelector :: "string \<Rightarrow> string option \<Rightarrow> string" where
  "buildSelector role name =
     (case name of
        Some n \<Rightarrow>
          if n \<noteq> [] then
            ''getByRole('' @ [CHR 0x27] @ role @ [CHR 0x27] @ '', { name: '' @ [CHR 0x22]
              @ escapeQuotes n @ [CHR 0x22] @ '', exact: true })''
          else ''getByRole('' @ [CHR 0x27] @ role @ [CHR 0x27] @ '')''
      | None \<Rightarrow> ''getByRole('' @ [CHR 0x27] @ role @ [CHR 0x27] @ '')'')"

text \<open>The text that a ref assignment appends after role and name.\<close>

definition nameText :: "string option \<Rightarrow> string" where
  "nameText name =
     (case name of None \<Rightarrow> [] | Some n \<Rightarrow> if n \<noteq> [] then '' '' @ [CHR 0x22] @ n @ [CHR 0x22] else [])"

definition refText :: "string \<Rightarrow> nat \<Rightarrow> string" where
  "refText ref idx =
     '' [ref='' @ ref @ '']'' @ (if idx > 0 then '' [nth='' @ showNat idx @ '']'' else [])"

text \<open>
  The statements shared by both modes once a line is to carry a ref: allocate the ref,
  take the index of its (role, name) key, record both, store the entry.
\<close>

definition assignRef :: "string \<Rightarrow> string option \<Rightarrow> SnapState \<Rightarrow> (string \<times> nat) \<times> SnapState" where
  "assignRef roleLower name st =
     (let (ref, st1) = nextRef st;
          (idx, st2) = getNextIndex roleLower name st1;
          st3 = trackRef roleLower name ref st2;
          st4 = st3\<lparr>refs := AList.update ref
                   \<lparr>ref_selector = buildSelector roleLower name, ref_role = roleLower,
                    ref_name = name, ref_nth = Some idx\<rparr> (refs st3)\<rparr>
      in ((ref, idx), st4))"

text \<open>\<^verbatim>\<open>maxDepth !== undefined && depth > maxDepth\<close>.\<close>

definition tooDeep :: "SnapshotOptions \<Rightarrow> string \<Rightarrow> bool" where
  "tooDeep options line =
     (case maxDepth options of None \<Rightarrow> False | Some d \<Rightarrow> int (getIndentLevel line) > d)"

definition processLine :: "string \<Rightarrow> SnapshotOptions \<Rightarrow> SnapState \<Rightarrow> string option \<times> SnapState" where
  "processLine line options st =
     (if tooDeep options line then (None, st)
      else case matchLine line of
        None \<Rightarrow> if interactive options then (None, st) else (Some line, st)
      | Some (pre, role, name, sfx) \<Rightarrow>
          (let roleLower = toLowerCase role;
               isInteractive = roleLower \<in> set INTERACTIVE_ROLES;
               isContent = roleLower \<in> set CONTENT_ROLES;
               isStructural = roleLower \<in> set STRUCTURAL_ROLES
           in
           if startsWith ''/'' role then (Some line, st)
           else if interactive options \<and> \<not> isInteractive then (None, st)
           else if compact options \<and> isStructural \<and> \<not> truthy name then (None, st)
           else if isInteractive \<or> (isContent \<and> truthy name) then
             (let ((ref, idx), st') = assignRef roleLower name st
              in (Some (pre @ role @ nameText name @ refText ref idx @ sfx), st'))
           else (Some line, st)))"

text \<open>The body of the loop of the interactive-only mode.\<close>

definition interactiveLine :: "string \<Rightarrow> SnapshotOptions \<Rightarrow> SnapState \<Rightarrow> string option \<times> SnapState" where
  "interactiveLine line options st =
     (case matchLine line of
        None \<Rightarrow> (None, st)
      | Some (pre, role, name, sfx) \<Rightarrow>
          (let roleLower = toLowerCase role in
           if roleLower \<in> set INTERACTIVE_ROLES then
             (let ((ref, idx), st') = assignRef roleLower name st
              in (Some (''- '' @ role @ nameText name @ refText ref idx
                        @ (if sfx \<noteq> [] \<and> includesStr ''['' sfx then sfx else [])), st'))
           else (None, st)))"

text \<open>
  A loop that runs a line function over the lines in order, threading the state and
  pushing every result that is not \<^verbatim>\<open>null\<close>.
\<close>

fun collectLines ::
  "(string \<Rightarrow> SnapState \<Rightarrow> string option \<times> SnapState) \<Rightarrow> string list \<Rightarrow> SnapState
     \<Rightarrow> string list \<times> SnapState" where
  "collectLines f [] st = ([], st)"
| "collectLines f (line # rest) st =
     (case f line st of
        (None, st') \<Rightarrow> collectLines f rest st'
      | (Some out, st') \<Rightarrow>
          (case collectLines f rest st' of (outs, st'') \<Rightarrow> (out # outs, st'')))"

section \<open>Compact mode\<close>

fun hasRelevantChildren :: "nat \<Rightarrow> string list \<Rightarrow> bool" where
  "hasRelevantChildren currentIndent [] = False"
| "hasRelevantChildren currentIndent (l # ls) =
     (if getIndentLevel l \<le> currentIndent then False
      else if includesStr ''[ref='' l then True
      else hasRelevantChildren currentIndent ls)"

fun compactLines :: "string list \<Rightarrow> string list" where
  "compactLines [] = []"
| "compactLines (line # rest) =
     (if includesStr ''[ref='' line then line # compactLines rest
      else if includesStr '':'' line \<and> \<not> endsWith '':'' line then line # compactLines rest
      else if hasRelevantChildren (getIndentLevel line) rest then line # compactLines rest
      else compactLines rest)"

definition compactTree :: "string \<Rightarrow> string" where
  "compactTree tree = joinNL (compactLines (splitNL tree))"

section \<open>Tree filter pipeline\<close>

definition processAriaTree ::
  "string \<Rightarrow> SnapshotOptions \<Rightarrow> bool \<Rightarrow> SnapState \<Rightarrow> string \<times> SnapState" where
  "processAriaTree ariaTree options finalizeNth st =
     (let lines = splitNL ariaTree in
      if interactive options then
        (let (result, st1) = collectLines (\<lambda>l. interactiveLine l options) lines st;
             st2 = (if finalizeNth then removeNthFromNonDuplicates st1 else st1);
             joined = joinNL result
         in (if joined = [] then ''(no interactive elements)'' else joined, st2))
      else
        (let (result, st1) = collectLines (\<lambda>l. processLine l options) lines st;
             st2 = (if finalizeNth then removeNthFromNonDuplicates st1 else st1)
         in (if compact options then compactTree (joinNL result) else joinNL result, st2)))"

section \<open>Cursor-interactive detector\<close>

text \<open>
  \<^verbatim>\<open>Array.prototype.sort\<close> with a comparator is stable, and for a consistent comparator
  its result is the one of a stable insertion sort.
\<close>

fun insertBy :: "('a \<Rightarrow> 'a \<Rightarrow> int) \<Rightarrow> 'a \<Rightarrow> 'a list \<Rightarrow> 'a list" where
  "insertBy cmp x [] = [x]"
| "insertBy cmp x (y # ys) = (if cmp x y \<le> 0 then x # y # ys else y # insertBy cmp x ys)"

definition sortBy :: "('a \<Rightarrow> 'a \<Rightarrow> int) \<Rightarrow> 'a list \<Rightarrow> 'a list" where
  "sortBy cmp xs = foldr (insertBy cmp) xs []"

text \<open>
  A candidate of the in-page scan. Elements are node identities; \<^verbatim>\<open>a.contains(b)\<close> is
  a relation that the document supplies.
\<close>

record Candidate =
  c_element :: nat
  c_selector :: string
  c_text :: string
  tagName :: string
  hasOnClick :: bool
  hasCursorPointer :: bool
  hasTabIndex :: bool
  hasTitle :: bool
  hasAriaLabel :: bool
  hasDirectCursorPointer :: bool
  depth :: nat
  c_order :: nat

record CursorElement =
  el_selector :: string
  el_text :: string
  el_tagName :: string
  el_hasOnClick :: bool
  el_hasCursorPointer :: bool
  el_hasTabIndex :: bool

definition scoreCandidate :: "Candidate \<Rightarrow> int" where
  "scoreCandidate candidate =
     (if hasTitle candidate then 16 else if hasAriaLabel candidate then 8 else 0)
     + (if hasDirectCursorPointer candidate then 4 else 0)
     + (if hasOnClick candidate then 2 else 0)
     + (if hasTabIndex candidate then 1 else 0)"

definition compareCandidates :: "Candidate \<Rightarrow> Candidate \<Rightarrow> int" where
  "compareCandidates a b =
     (let scoreDiff = scoreCandidate b - scoreCandidate a;
          aLabeled = (hasTitle a \<or> hasAriaLabel a);
          bLabeled = (hasTitle b \<or> hasAriaLabel b)
      in if scoreDiff \<noteq> 0 then scoreDiff
         else if aLabeled \<and> bLabeled then
           (if depth a \<noteq> depth b then int (depth a) - int (depth b)
            else int (c_order a) - int (c_order b))
         else if depth a \<noteq> depth b then int (depth b) - int (depth a)
         else int (c_order a) - int (c_order b))"

definition overlaps :: "(nat \<Rightarrow> nat \<Rightarrow> bool) \<Rightarrow> Candidate list \<Rightarrow> Candidate \<Rightarrow> bool" where
  "overlaps contains selected candidate =
     list_ex (\<lambda>chosen. contains (c_element chosen) (c_element candidate)
                      \<or> contains (c_element candidate) (c_element chosen)) selected"

definition selectCandidates :: "(nat \<Rightarrow> nat \<Rightarrow> bool) \<Rightarrow> Candidate list \<Rightarrow> Candidate list" where
  "selectCandidates contains sorted_cs =
     foldl (\<lambda>selected candidate.
              if overlaps contains selected candidate then selected
              else selected @ [candidate]) [] sorted_cs"

definition toCursorElement :: "Candidate \<Rightarrow> CursorElement" where
  "toCursorElement candidate =
     \<lparr>el_selector = c_selector candidate, el_text = c_text candidate,
      el_tagName = tagName candidate, el_hasOnClick = hasOnClick candidate,
      el_hasCursorPointer = hasCursorPointer candidate,
      el_hasTabIndex = hasTabIndex candidate\<rparr>"

text \<open>\<^verbatim>\<open>order: order++\<close>: a candidate's order is its place in the scan.\<close>

fun assignOrder :: "nat \<Rightarrow> Candidate list \<Rightarrow> Candidate list" where
  "assignOrder k [] = []"
| "assignOrder k (c # cs) = c\<lparr>c_order := k\<rparr> # assignOrder (Suc k) cs"

text \<open>The part of the in-page query after the scan: score, sort, select, sort back.\<close>

definition dedupeCandidates :: "(nat \<Rightarrow> nat \<Rightarrow> bool) \<Rightarrow> Candidate list \<Rightarrow> Candidate list" where
  "dedupeCandidates contains candidates =
     sortBy (\<lambda>a b. int (c_order a) - int (c_order b))
       (selectCandidates contains (sortBy compareCandidates candidates))"

text \<open>
  What the collaborators give. An exception of a collaborator is a value \<open>Inl\<close>.
  \<^item> \<open>ariaSnapshot\<close>: \<^verbatim>\<open>page.locator(sel).ariaSnapshot()\<close>;
  \<^item> \<open>cursorScan\<close>: the document as the cursor query sees it under a root selector (the
    eligible elements in document order, and containment), or the failure of
    \<^verbatim>\<open>page.evaluate\<close>;
  \<^item> \<open>regionScan\<close>: the document as the region query sees it, or the failure of
    \<^verbatim>\<open>page.evaluate\<close>.
\<close>

datatype error = Thrown string

record CursorDom =
  cd_contains :: "nat \<Rightarrow> nat \<Rightarrow> bool"
  cd_scan :: "Candidate list"

record RegionDom =
  querySelectorAll :: "string \<Rightarrow> nat list"
  rd_contains :: "nat \<Rightarrow> nat \<Rightarrow> bool"
  getDepth :: "nat \<Rightarrow> nat"
  isOnScreenAndVisible :: "nat \<Rightarrow> bool"
  hasFabToken :: "nat \<Rightarrow> bool"
  isFabLikeFloatingControl :: "nat \<Rightarrow> bool"
  buildUniqueSelector :: "nat \<Rightarrow> string"

record Page =
  ariaSnapshot :: "string \<Rightarrow> error + string"
  cursorScan :: "string \<Rightarrow> error + CursorDom"
  regionScan :: "error + RegionDom"

definition findCursorInteractiveElements :: "Page \<Rightarrow> string option \<Rightarrow> CursorElement list" where
  "findCursorInteractiveElements page sel =
     (let rootSelector = (case sel of None \<Rightarrow> ''body'' | Some s \<Rightarrow> if s = [] then ''body'' else s)
      in case cursorScan page rootSelector of
           Inl e \<Rightarrow> []
         | Inr doc \<Rightarrow>
             map toCursorElement
               (dedupeCandidates (cd_contains doc) (assignOrder 0 (cd_scan doc))))"

section \<open>Region partitioner\<close>

datatype RegionKey = sidebar | contents | drawer | fab

record SnapshotRegion =
  key :: RegionKey
  title :: string
  selectors :: "string list"

definition definitions :: "(RegionKey \<times> string \<times> string list) list" where
  "definitions =
     [(sidebar, ''Sidebar'',
        [''#sidebar-header'', ''#sidebar-center'', ''#sidebar-footer'',
         ''.component.reverb.sidebar'']),
      (contents, ''Contents'',
        [''#panel-header'', ''#panel-center'', ''#panel-footer'', ''#contents-header'',
         ''#contents-center'', ''#contents-footer'', ''.component.reverb.threads'',
         ''.component.reverb.messages'']),
      (drawer, ''Drawer'',
        [''#drawer-container'', ''#drawer-header'', ''#drawer-center'', ''#drawer-footer''])]"

text \<open>\<^verbatim>\<open>doc.querySelector(s)\<close> is the first match, or \<^verbatim>\<open>null\<close>.\<close>

definition querySelectorHit :: "RegionDom \<Rightarrow> string \<Rightarrow> bool" where
  "querySelectorHit doc s = (querySelectorAll doc s \<noteq> [])"

definition hasMyheloSubLayout :: "RegionDom \<Rightarrow> bool" where
  "hasMyheloSubLayout doc =
     ((querySelectorHit doc ''#panel-center'' \<or> querySelectorHit doc ''#contents-center''
        \<or> querySelectorHit doc ''.component.reverb.threads''
        \<or> querySelectorHit doc ''.component.reverb.messages'')
      \<and> (querySelectorHit doc ''#sidebar-center'' \<or> querySelectorHit doc ''#drawer-container''
        \<or> querySelectorHit doc ''.component.reverb.sidebar''))"

text \<open>\<^verbatim>\<open>Array.from(new Set(elements))\<close>: the first occurrence of each element stays.\<close>

fun uniqueElements :: "nat list \<Rightarrow> nat list \<Rightarrow> nat list" where
  "uniqueElements seen [] = []"
| "uniqueElements seen (x # xs) =
     (if x \<in> set seen then uniqueElements seen xs else x # uniqueElements (x # seen) xs)"

definition dedupeTopLevelElements :: "RegionDom \<Rightarrow> nat list \<Rightarrow> nat list" where
  "dedupeTopLevelElements doc elements =
     foldl (\<lambda>selected candidate.
              if list_ex (\<lambda>picked. rd_contains doc picked candidate) selected then selected
              else selected @ [candidate]) []
       (sortBy (\<lambda>a b. int (getDepth doc a) - int (getDepth doc b)) (uniqueElements [] elements))"

definition collectRegionSelectors :: "RegionDom \<Rightarrow> string list \<Rightarrow> string list" where
  "collectRegionSelectors doc candidateSelectors =
     (let matches = concat (map (\<lambda>s. filter (isOnScreenAndVisible doc) (querySelectorAll doc s))
                              candidateSelectors)
      in map (buildUniqueSelector doc) (dedupeTopLevelElements doc matches))"

definition collectFabSelectors :: "RegionDom \<Rightarrow> string list" where
  "collectFabSelectors doc =
     (let fabElements =
        filter (\<lambda>el. if \<not> isOnScreenAndVisible doc el then False
                     else if hasFabToken doc el then True
                     else isFabLikeFloatingControl doc el) (querySelectorAll doc ''*'')
      in map (buildUniqueSelector doc) (dedupeTopLevelElements doc fabElements))"

definition regionsOf :: "RegionDom \<Rightarrow> SnapshotRegion list" where
  "regionsOf doc =
     concat (map (\<lambda>(k, t, cands).
                    (let sels = collectRegionSelectors doc cands in
                     if length sels > 0 then [\<lparr>key = k, title = t, selectors = sels\<rparr>] else []))
                 definitions)
     @ (let fabSelectors = collectFabSelectors doc in
        if length fabSelectors > 0
        then [\<lparr>key = fab, title = ''FAB'', selectors = fabSelectors\<rparr>] else [])"

definition getMyheloActiveRegions :: "Page \<Rightarrow> SnapshotRegion list" where
  "getMyheloActiveRegions page =
     (case regionScan page of
        Inl e \<Rightarrow> []
      | Inr doc \<Rightarrow> if \<not> hasMyheloSubLayout doc then [] else regionsOf doc)"

section \<open>Snapshot of one scope\<close>

record EnhancedSnapshot =
  tree :: string
  snap_refs :: RefMap

definition cursorRole :: "CursorElement \<Rightarrow> string" where
  "cursorRole el =
     (if el_hasCursorPointer el then ''clickable''
      else if el_hasOnClick el then ''clickable'' else ''focusable'')"

definition cursorHints :: "CursorElement \<Rightarrow> string list" where
  "cursorHints el =
     (if el_hasCursorPointer el then [''cursor:pointer''] else [])
     @ (if el_hasOnClick el then [''onclick''] else [])
     @ (if el_hasTabIndex el then [''tabindex''] else [])"

text \<open>The loop over the cursor elements: a ref and a line for each; no \<^verbatim>\<open>nth\<close>.\<close>

fun cursorLines :: "CursorElement list \<Rightarrow> SnapState \<Rightarrow> string list \<times> SnapState" where
  "cursorLines [] st = ([], st)"
| "cursorLines (el # els) st =
     (let (ref, st1) = nextRef st;
          role = cursorRole el;
          st2 = st1\<lparr>refs := AList.update ref
                   \<lparr>ref_selector = el_selector el, ref_role = role,
                    ref_name = Some (el_text el), ref_nth = None\<rparr> (refs st1)\<rparr>;
          line = ''- '' @ role @ '' '' @ [CHR 0x22] @ el_text el @ [CHR 0x22] @ '' [ref='' @ ref
                 @ ''] ['' @ joinWith '', '' (cursorHints el) @ '']''
      in case cursorLines els st2 of (ls, st3) \<Rightarrow> (line # ls, st3))"

definition emptyTree :: "SnapshotOptions \<Rightarrow> string" where
  "emptyTree options = (if interactive options then ''(no interactive elements)'' else ''(empty)'')"

text \<open>\<^verbatim>\<open>options.selector ? page.locator(options.selector) : page.locator(':root')\<close>.\<close>

definition locatorOf :: "SnapshotOptions \<Rightarrow> string" where
  "locatorOf options =
     (case selector options of None \<Rightarrow> '':root'' | Some s \<Rightarrow> if s = [] then '':root'' else s)"

definition isPlaceholder :: "string \<Rightarrow> bool" where
  "isPlaceholder t = (t = ''(no interactive elements)'' \<or> t = ''(empty)'')"

definition getEnhancedSnapshotForScope ::
  "Page \<Rightarrow> SnapshotOptions \<Rightarrow> SnapState \<Rightarrow> string \<times> SnapState" where
  "getEnhancedSnapshotForScope page options st =
     (let (enhancedTree, st1) =
            (case ariaSnapshot page (locatorOf options) of
               Inl e \<Rightarrow> (emptyTree options, st)
             | Inr ariaTree \<Rightarrow>
                 if ariaTree \<noteq> [] then processAriaTree ariaTree options False st
                 else if interactive options then (''(no interactive elements)'', st)
                 else (''(empty)'', st))
      in if cursor options then
           (let cursorElements = findCursorInteractiveElements page (selector options);
                (additionalLines, st2) = cursorLines cursorElements st1
            in if length additionalLines > 0 then
                 (let separator = (if isPlaceholder enhancedTree then []
                                   else [CHR 0x0A] @ ''# Cursor-interactive elements:'' @ [CHR 0x0A]);
                      base = (if isPlaceholder enhancedTree then [] else enhancedTree)
                  in (base @ separator @ joinNL additionalLines, st2))
               else (enhancedTree, st2))
         else (enhancedTree, st1))"

section \<open>Region sections and the top-level snapshot\<close>

fun sectionParts :: "Page \<Rightarrow> SnapshotOptions \<Rightarrow> string list \<Rightarrow> SnapState \<Rightarrow> string list \<times> SnapState" where
  "sectionParts page options [] st = ([], st)"
| "sectionParts page options (sel # sels) st =
     (case getEnhancedSnapshotForScope page (options\<lparr>selector := Some sel\<rparr>) st of
        (scopedTree, st1) \<Rightarrow>
          (case sectionParts page options sels st1 of
             (parts, st2) \<Rightarrow>
               if scopedTree = [] \<or> scopedTree = ''(empty)''
                  \<or> scopedTree = ''(no interactive elements)''
               then (parts, st2) else (scopedTree # parts, st2)))"

definition buildMyheloRegionSection ::
  "Page \<Rightarrow> SnapshotOptions \<Rightarrow> string list \<Rightarrow> SnapState \<Rightarrow> string \<times> SnapState" where
  "buildMyheloRegionSection page options sels st =
     (case sectionParts page options sels st of
        (parts, st1) \<Rightarrow>
          if length parts > 0 then (joinNL parts, st1) else (emptyTree options, st1))"

fun regionSections :: "Page \<Rightarrow> SnapshotOptions \<Rightarrow> SnapshotRegion list \<Rightarrow> SnapState \<Rightarrow> string list \<times> SnapState" where
  "regionSections page options [] st = ([], st)"
| "regionSections page options (region # regions) st =
     (case buildMyheloRegionSection page options (selectors region) st of
        (sectionTree, st1) \<Rightarrow>
          (case regionSections page options regions st1 of
             (sections, st2) \<Rightarrow>
               ((''# '' @ title region @ '':'' @ [CHR 0x0A] @ sectionTree) # sections, st2)))"

text \<open>\<^verbatim>\<open>!options.selector\<close>: no selector, or the empty string.\<close>

definition noSelector :: "SnapshotOptions \<Rightarrow> bool" where
  "noSelector options = (case selector options of None \<Rightarrow> True | Some s \<Rightarrow> s = [])"

text \<open>
  The top-level call. It takes the state the module was left in (only the counter
  survives a call) and starts by resetting the counter and making a new \<^verbatim>\<open>refs\<close>
  object and a new tracker.
\<close>

definition getEnhancedSnapshot ::
  "Page \<Rightarrow> SnapshotOptions \<Rightarrow> SnapState \<Rightarrow> EnhancedSnapshot \<times> SnapState" where
  "getEnhancedSnapshot page options st0 =
     (let st = createRoleNameTracker ((resetRefs st0)\<lparr>refs := []\<rparr>);
          regions = (if noSelector options then getMyheloActiveRegions page else [])
      in if noSelector options \<and> length regions > 0 then
           (case regionSections page options regions st of
              (sections, st1) \<Rightarrow>
                (let st2 = removeNthFromNonDuplicates st1
                 in (\<lparr>tree = joinWith [CHR 0x0A, CHR 0x0A] sections, snap_refs = refs st2\<rparr>, st2)))
         else
           (case getEnhancedSnapshotForScope page options st of
              (enhancedTree, st1) \<Rightarrow>
                (let st2 = removeNthFromNonDuplicates st1
                 in (\<lparr>tree = enhancedTree, snap_refs = refs st2\<rparr>, st2))))"

section \<open>The module as \<^verbatim>\<open>src/snapshot.ts\<close> has it\<close>

text \<open>
  \<^verbatim>\<open>src/snapshot.ts\<close> holds the module without the region partitioner. Its
  \<^verbatim>\<open>processAriaTree\<close> makes its own tracker and always strips \<^verbatim>\<open>nth\<close>; its
  \<^verbatim>\<open>getEnhancedSnapshot\<close> awaits \<^verbatim>\<open>ariaSnapshot()\<close> outside any \<^verbatim>\<open>try\<close>, so an
  exception of the locator is the result of the call.
\<close>

definition snapshot_ts_processAriaTree ::
  "string \<Rightarrow> SnapshotOptions \<Rightarrow> SnapState \<Rightarrow> string \<times> SnapState" where
  "snapshot_ts_processAriaTree ariaTree options st =
     processAriaTree ariaTree options True (createRoleNameTracker st)"

definition snapshot_ts_getEnhancedSnapshot ::
  "Page \<Rightarrow> SnapshotOptions \<Rightarrow> SnapState \<Rightarrow> error + (EnhancedSnapshot \<times> SnapState)" where
  "snapshot_ts_getEnhancedSnapshot page options st0 =
     (let st = (resetRefs st0)\<lparr>refs := []\<rparr> in
      case ariaSnapshot page (locatorOf options) of
        Inl e \<Rightarrow> Inl e
      | Inr ariaTree \<Rightarrow>
          if ariaTree = [] then Inr (\<lparr>tree = ''(empty)'', snap_refs = []\<rparr>, st)
          else
            (case snapshot_ts_processAriaTree ariaTree options st of
               (enhancedTree, st1) \<Rightarrow>
                 if cursor options then
                   (let cursorElements = findCursorInteractiveElements page (selector options);
                        (additionalLines, st2) = cursorLines cursorElements st1
                    in if length additionalLines > 0 then
                         (let separator =
                                (if enhancedTree = ''(no interactive elements)'' then []
                                 else [CHR 0x0A] @ ''# Cursor-interactive elements:'' @ [CHR 0x0A]);
                              base = (if enhancedTree = ''(no interactive elements)'' then []
                                      else enhancedTree)
                          in Inr (\<lparr>tree = base @ separator @ joinNL additionalLines,
                                   snap_refs = refs st2\<rparr>, st2))
                       else Inr (\<lparr>tree = enhancedTree, snap_refs = refs st2\<rparr>, st2))
                 else Inr (\<lparr>tree = enhancedTree, snap_refs = refs st1\<rparr>, st1)))"

section \<open>Refs in command arguments, and statistics\<close>

text \<open>\<^verbatim>\<open>/^e\d+$/.test(arg)\<close>.\<close>

definition isRefId :: "string \<Rightarrow> bool" where
  "isRefId arg = (case arg of [] \<Rightarrow> False | c # ds \<Rightarrow> c = CHR ''e'' \<and> ds \<noteq> [] \<and> list_all isDigit ds)"

definition parseRef :: "string \<Rightarrow> string option" where
  "parseRef arg =
     (if startsWith ''@'' arg then Some (drop 1 arg)
      else if startsWith ''ref='' arg then Some (drop 4 arg)
      else if isRefId arg then Some arg
      else None)"

text \<open>The \<^verbatim>\<open>lines\<close> and \<^verbatim>\<open>chars\<close> fields of \<^verbatim>\<open>getSnapshotStats\<close>.\<close>

definition statsLines :: "string \<Rightarrow> nat" where
  "statsLines t = length (splitNL t)"

definition statsChars :: "string \<Rightarrow> nat" where
  "statsChars t = length t"

section \<open>Notions for the statements and the proofs\<close>

text \<open>
  Reading a ref id back: \<open>refId k\<close> is the id that \<^verbatim>\<open>nextRef\<close> makes when the counter
  becomes \<open>k\<close>, and \<open>refNumber\<close> gives the number of a string of the form \<^verbatim>\<open>e<digits>\<close>.
\<close>

definition digitVal :: "char \<Rightarrow> nat" where
  "digitVal c = (case map_of (zip ''0123456789'' [0, 1, 2, 3, 4, 5, 6, 7, 8, 9]) c of Some d \<Rightarrow> d | None \<Rightarrow> 0)"

definition readNat :: "string \<Rightarrow> nat" where
  "readNat ds = foldl (\<lambda>a c. 10 * a + digitVal c) 0 ds"

definition refNumber :: "string \<Rightarrow> nat option" where
  "refNumber r = (if isRefId r then Some (readNat (tl r)) else None)"

definition refId :: "nat \<Rightarrow> string" where
  "refId k = CHR ''e'' # showNat k"

text \<open>
  The invariant of a snapshot call. The keys of the RefMap are \<^verbatim>\<open>e1\<close> to the id of the
  counter; an entry carries \<^verbatim>\<open>nth\<close> exactly when the tree pipeline made it (its role is an
  Interactive or Content role); for every (role, name) key the tracker's count and the
  length of its ref list are the number of such entries with that key; and the \<^verbatim>\<open>nth\<close>
  of such an entry is the number of earlier ones with its key.
\<close>

definition entryKey :: "RefEntry \<Rightarrow> string" where
  "entryKey e = getKey (ref_role e) (ref_name e)"

definition isTreeRole :: "string \<Rightarrow> bool" where
  "isTreeRole r = (r \<in> set INTERACTIVE_ROLES \<or> r \<in> set CONTENT_ROLES)"

definition trackedAs :: "string \<Rightarrow> string \<times> RefEntry \<Rightarrow> bool" where
  "trackedAs k p = (ref_nth (snd p) \<noteq> None \<and> entryKey (snd p) = k)"

definition countOf :: "SnapState \<Rightarrow> string \<Rightarrow> nat" where
  "countOf st k = (case map_of (counts st) k of None \<Rightarrow> 0 | Some c \<Rightarrow> c)"

definition refsOf :: "SnapState \<Rightarrow> string \<Rightarrow> string list" where
  "refsOf st k = (case map_of (refsByKey st) k of None \<Rightarrow> [] | Some r \<Rightarrow> r)"

definition nthsOK :: "RefMap \<Rightarrow> bool" where
  "nthsOK es = (\<forall>i < length es. \<forall>n. ref_nth (snd (es ! i)) = Some n \<longrightarrow>
                  n = length (filter (trackedAs (entryKey (snd (es ! i)))) (take i es)))"

definition INV :: "SnapState \<Rightarrow> bool" where
  "INV st = (map fst (refs st) = map refId [1..<Suc (refCounter st)]
     \<and> (\<forall>k. countOf st k = length (filter (trackedAs k) (refs st)))
     \<and> (\<forall>k. length (refsOf st k) = length (filter (trackedAs k) (refs st)))
     \<and> distinct (map fst (refsByKey st))
     \<and> nthsOK (refs st)
     \<and> (\<forall>p \<in> set (refs st). (ref_nth (snd p) \<noteq> None) = isTreeRole (ref_role (snd p))))"

text \<open>
  After the final strip the entries of the tree pipeline are told by their role.
  \<open>stripNth\<close> is what \<^verbatim>\<open>removeNthFromNonDuplicates\<close> does to one entry.
\<close>

definition sameTreeKey :: "string \<Rightarrow> string \<times> RefEntry \<Rightarrow> bool" where
  "sameTreeKey k p = (isTreeRole (ref_role (snd p)) \<and> entryKey (snd p) = k)"

definition stripNth :: "string list \<Rightarrow> string \<times> RefEntry \<Rightarrow> string \<times> RefEntry" where
  "stripNth dups p = (if entryKey (snd p) \<notin> set dups then (fst p, (snd p)\<lparr>ref_nth := None\<rparr>) else p)"

text \<open>
  Pages, options and a state for the examples: a clickable \<^verbatim>\<open>div\<close> as the scan reports
  it; a page with no tree and two clickable elements labeled alike; no option set; the
  state of a module that has made no ref yet; a page of two buttons named alike; a page
  whose locator throws.
\<close>

definition divCandidate :: "nat \<Rightarrow> string \<Rightarrow> string \<Rightarrow> Candidate" where
  "divCandidate el sel label =
     \<lparr>c_element = el, c_selector = sel, c_text = label, tagName = ''div'', hasOnClick = False,
      hasCursorPointer = True, hasTabIndex = False, hasTitle = False, hasAriaLabel = False,
      hasDirectCursorPointer = False, depth = 2, c_order = 0\<rparr>"

definition page_two_save_divs :: Page where
  "page_two_save_divs =
     \<lparr>ariaSnapshot = (\<lambda>sel. Inr []),
      cursorScan = (\<lambda>root. Inr \<lparr>cd_contains = (\<lambda>a b. a = b),
                                  cd_scan = [divCandidate 1 ''#a'' ''Save'', divCandidate 2 ''#b'' ''Save'']\<rparr>),
      regionScan = Inr \<lparr>querySelectorAll = (\<lambda>s. []), rd_contains = (\<lambda>a b. a = b),
                        getDepth = (\<lambda>e. 0), isOnScreenAndVisible = (\<lambda>e. True),
                        hasFabToken = (\<lambda>e. False), isFabLikeFloatingControl = (\<lambda>e. False),
                        buildUniqueSelector = (\<lambda>e. ''div'')\<rparr>\<rparr>"

definition defaultOptions :: SnapshotOptions where
  "defaultOptions = \<lparr>interactive = False, cursor = False, maxDepth = None, compact = False, selector = None\<rparr>"

definition freshState :: SnapState where
  "freshState = \<lparr>refCounter = 0, refs = [], counts = [], refsByKey = []\<rparr>"

definition page_two_buttons :: Page where
  "page_two_buttons =
     \<lparr>ariaSnapshot = (\<lambda>sel. Inr (''- button '' @ [CHR 0x22] @ ''A'' @ [CHR 0x22, CHR 0x0A]
                                  @ ''- button '' @ [CHR 0x22] @ ''A'' @ [CHR 0x22])),
      cursorScan = (\<lambda>root. Inl (Thrown ''detached'')),
      regionScan = Inl (Thrown ''detached'')\<rparr>"

definition page_locator_throws :: Page where
  "page_locator_throws =
     \<lparr>ariaSnapshot = (\<lambda>sel. Inl (Thrown ''strict mode violation'')),
      cursorScan = (\<lambda>root. Inr \<lparr>cd_contains = (\<lambda>a b. a = b), cd_scan = []\<rparr>),
      regionScan = Inl (Thrown ''execution context was destroyed'')\<rparr>"

text \<open>A candidate is labeled when its label comes from \<^verbatim>\<open>title\<close> or \<^verbatim>\<open>aria-label\<close>.\<close>

definition labeled :: "Candidate \<Rightarrow> bool" where
  "labeled c = (hasTitle c \<or> hasAriaLabel c)"

text \<open>
  The order of consideration in the spec's words: higher score first; at equal score the
  shallower one when both are labeled, the deeper one otherwise; then discovery order.
\<close>

definition specPrecedes :: "Candidate \<Rightarrow> Candidate \<Rightarrow> bool" where
  "specPrecedes a b =
     (scoreCandidate a > scoreCandidate b
      \<or> (scoreCandidate a = scoreCandidate b
          \<and> ((if labeled a \<and> labeled b then depth a < depth b else depth a > depth b)
              \<or> (depth a = depth b \<and> c_order a \<le> c_order b))))"

text \<open>Neither element contains the other.\<close>

definition noContainment :: "(nat \<Rightarrow> nat \<Rightarrow> bool) \<Rightarrow> Candidate \<Rightarrow> Candidate \<Rightarrow> bool" where
  "noContainment contains a b =
     (\<not> contains (c_element a) (c_element b) \<and> \<not> contains (c_element b) (c_element a))"

text \<open>
  A wrapper labeled by \<^verbatim>\<open>title\<close> (element 1) that holds an icon (2) and a text (3), and
  a separate clickable element (4).
\<close>

definition wrapperContains :: "nat \<Rightarrow> nat \<Rightarrow> bool" where
  "wrapperContains a b = (a = b \<or> (a = 1 \<and> (b = 2 \<or> b = 3)))"

definition wrapperScan :: "Candidate list" where
  "wrapperScan =
     [(divCandidate 1 ''#wrap'' ''Attach file'')\<lparr>hasTitle := True, depth := 3\<rparr>,
      (divCandidate 2 ''#wrap > i'' ''icon'')\<lparr>depth := 4\<rparr>,
      (divCandidate 3 ''#wrap > span'' ''Attach'')\<lparr>depth := 4\<rparr>,
      (divCandidate 4 ''#other'' ''Send'')\<lparr>depth := 3, hasOnClick := True\<rparr>]"

text \<open>
  The on-screen, visible matches of a region before containment deduplication: for the
  three selector-driven regions the visible matches of its candidate selectors, for the
  FAB the visible elements with a fab token or of floating-control shape.
\<close>

definition regionCandidates :: "RegionKey \<Rightarrow> string list" where
  "regionCandidates k = concat (map (\<lambda>(k', t, cands). if k' = k then cands else []) definitions)"

definition regionMatches :: "RegionDom \<Rightarrow> RegionKey \<Rightarrow> nat list" where
  "regionMatches doc k =
     (if k = fab then
        filter (\<lambda>el. isOnScreenAndVisible doc el \<and> (hasFabToken doc el \<or> isFabLikeFloatingControl doc el))
          (querySelectorAll doc ''*'')
      else concat (map (\<lambda>s. filter (isOnScreenAndVisible doc) (querySelectorAll doc s))
                     (regionCandidates k)))"

definition regionTitle :: "RegionKey \<Rightarrow> string" where
  "regionTitle k = (case k of sidebar \<Rightarrow> ''Sidebar'' | contents \<Rightarrow> ''Contents''
                    | drawer \<Rightarrow> ''Drawer'' | fab \<Rightarrow> ''FAB'')"

text \<open>
  A shell whose sidebar exists but lies off-screen, with a visible contents pane
  (element 10) and a visible element carrying a fab token (30).
\<close>

definition doc_shell :: RegionDom where
  "doc_shell =
     \<lparr>querySelectorAll = (\<lambda>s. if s = ''#contents-center'' then [10]
                               else if s = ''#sidebar-center'' then [20]
                               else if s = ''*'' then [10, 20, 30] else []),
      rd_contains = (\<lambda>a b. a = b),
      getDepth = (\<lambda>e. 2),
      isOnScreenAndVisible = (\<lambda>e. e \<noteq> 20),
      hasFabToken = (\<lambda>e. e = 30),
      isFabLikeFloatingControl = (\<lambda>e. False),
      buildUniqueSelector = (\<lambda>e. if e = 10 then ''#contents-center''
                                  else if e = 30 then ''#fab'' else ''#sidebar-center'')\<rparr>"

definition page_shell :: Page where
  "page_shell =
     \<lparr>ariaSnapshot = (\<lambda>sel. if sel = ''#contents-center''
                              then Inr (''- button '' @ [CHR 0x22] @ ''Send'' @ [CHR 0x22])
                              else if sel = ''#fab''
                              then Inr (''- button '' @ [CHR 0x22] @ ''New'' @ [CHR 0x22])
                              else Inl (Thrown ''no element'')),
      cursorScan = (\<lambda>root. Inl (Thrown ''not used'')),
      regionScan = Inr doc_shell\<rparr>"

text \<open>What the line classifier decides, as pure functions of the line.\<close>

definition getsRef :: "string \<Rightarrow> bool" where
  "getsRef line =
     (case matchLine line of
        None \<Rightarrow> False
      | Some (pre, role, name, sfx) \<Rightarrow>
          toLowerCase role \<in> set INTERACTIVE_ROLES
          \<or> (toLowerCase role \<in> set CONTENT_ROLES \<and> truthy name))"

definition unnamedStructural :: "string \<Rightarrow> bool" where
  "unnamedStructural line =
     (case matchLine line of
        None \<Rightarrow> False
      | Some (pre, role, name, sfx) \<Rightarrow>
          toLowerCase role \<in> set STRUCTURAL_ROLES \<and> \<not> truthy name)"

definition keptFull :: "SnapshotOptions \<Rightarrow> string \<Rightarrow> bool" where
  "keptFull options line = (\<not> tooDeep options line \<and> \<not> (compact options \<and> unnamedStructural line))"

text \<open>What the compact pass looks at in a line: indentation, a ref, text after a colon.\<close>

definition hasRefMark :: "string \<Rightarrow> bool" where
  "hasRefMark l = includesStr ''[ref='' l"

definition keepAlways :: "string \<Rightarrow> bool" where
  "keepAlways l = (includesStr ''[ref='' l \<or> (includesStr '':'' l \<and> \<not> endsWith '':'' l))"

definition lineView :: "string \<Rightarrow> nat \<times> bool \<times> bool" where
  "lineView l = (getIndentLevel l, hasRefMark l, keepAlways l)"

definition outView :: "string \<Rightarrow> nat \<times> bool \<times> bool" where
  "outView line = (if getsRef line then (getIndentLevel line, True, True) else lineView line)"

fun hasRelevantView :: "nat \<Rightarrow> (nat \<times> bool \<times> bool) list \<Rightarrow> bool" where
  "hasRelevantView n [] = False"
| "hasRelevantView n (v # vs) =
     (if fst v \<le> n then False else if fst (snd v) then True else hasRelevantView n vs)"

fun compactCount :: "(nat \<times> bool \<times> bool) list \<Rightarrow> nat" where
  "compactCount [] = 0"
| "compactCount (v # vs) =
     (if snd (snd v) \<or> hasRelevantView (fst v) vs then Suc (compactCount vs) else compactCount vs)"

text \<open>
  The array of lines that \<^verbatim>\<open>processAriaTree\<close> joins at its end: the \<^verbatim>\<open>result\<close> array of
  the loop, or in compact mode the \<^verbatim>\<open>result\<close> array of \<^verbatim>\<open>compactTree\<close>.
\<close>

definition outputLines :: "string \<Rightarrow> SnapshotOptions \<Rightarrow> SnapState \<Rightarrow> string list" where
  "outputLines ariaTree options st =
     (if interactive options
      then fst (collectLines (\<lambda>l. interactiveLine l options) (splitNL ariaTree) st)
      else if compact options
      then compactLines (splitNL (joinNL
             (fst (collectLines (\<lambda>l. processLine l options) (splitNL ariaTree) st))))
      else fst (collectLines (\<lambda>l. processLine l options) (splitNL ariaTree) st))"

text \<open>A list of one item with a button, three levels deep.\<close>

definition tree_nested :: string where
  "tree_nested = ''- list'' @ [CHR 0x0A] @ ''  - listitem'' @ [CHR 0x0A]
                 @ ''    - button '' @ [CHR 0x22] @ ''Go'' @ [CHR 0x22]"

text \<open>
  How a line of the interactive mode and a line of the full mode relate when both come
  from one input line with an Interactive role: same role and quoted name; the first
  starts with a dash and a blank where the second keeps the original indentation and
  dash; each has an annotation of its own; the first keeps the suffix only if the suffix
  holds a bracket.
\<close>

definition isAnnotation :: "string \<Rightarrow> bool" where
  "isAnnotation a = (\<exists>k n. a = refText (refId k) n)"

definition corresponds :: "string \<Rightarrow> string \<Rightarrow> bool" where
  "corresponds il fl =
     (\<exists>line pre role name sfx a a'.
        matchLine line = Some (pre, role, name, sfx)
        \<and> toLowerCase role \<in> set INTERACTIVE_ROLES
        \<and> isAnnotation a \<and> isAnnotation a'
        \<and> il = ''- '' @ role @ nameText name @ a
                 @ (if sfx \<noteq> [] \<and> includesStr ''['' sfx then sfx else [])
        \<and> fl = pre @ role @ nameText name @ a' @ sfx)"

text \<open>A navigation landmark with one link and the link's URL below it.\<close>

definition tree_navigation :: string where
  "tree_navigation = ''- navigation:'' @ [CHR 0x0A]
     @ ''  - link '' @ [CHR 0x22] @ ''Home'' @ [CHR 0x22] @ '':'' @ [CHR 0x0A]
     @ ''    - /url: /home''"

text \<open>
  A shell with one visible region, the contents pane, whose tree is a single image
  without a name.
\<close>

definition page_image_pane :: Page where
  "page_image_pane =
     \<lparr>ariaSnapshot = (\<lambda>sel. if sel = ''#contents-center'' then Inr ''- img''
                              else Inl (Thrown ''no element'')),
      cursorScan = (\<lambda>root. Inl (Thrown ''not used'')),
      regionScan = Inr (doc_shell\<lparr>hasFabToken := (\<lambda>e. False)\<rparr>)\<rparr>"

text \<open>
  A page whose cursor scan finds the wrapper, its icon, its text and the separate element,
  in document order; it has no accessibility tree and is no shell.
\<close>

definition page_wrapper :: Page where
  "page_wrapper =
     \<lparr>ariaSnapshot = (\<lambda>sel. Inr []),
      cursorScan = (\<lambda>root. Inr \<lparr>cd_contains = wrapperContains, cd_scan = wrapperScan\<rparr>),
      regionScan = Inl (Thrown ''no shell'')\<rparr>"

text \<open>
  What the loops of \<^verbatim>\<open>processAriaTree\<close> decide for a line, as pure functions of the line:
  whether its role is an Interactive role; whether it is a plain line (it does not match
  the grammar, or its role is in none of the three sets); whether the loop pushes a line
  for it (\<open>emitted\<close>); whether the loop gives it a ref (\<open>refLine\<close>); and the line that the
  loop pushes for it when it gives it the ref \<open>ref\<close> with the index \<open>idx\<close> (\<open>annotated\<close>).
\<close>

definition interactiveRole :: "string \<Rightarrow> bool" where
  "interactiveRole line =
     (case matchLine line of
        None \<Rightarrow> False
      | Some (pre, role, name, sfx) \<Rightarrow> toLowerCase role \<in> set INTERACTIVE_ROLES)"


definition emitted :: "SnapshotOptions \<Rightarrow> string \<Rightarrow> bool" where
  "emitted options line =
     (if interactive options then interactiveRole line else keptFull options line)"

definition refLine :: "SnapshotOptions \<Rightarrow> string \<Rightarrow> bool" where
  "refLine options line =
     (if interactive options then interactiveRole line
      else keptFull options line \<and> getsRef line)"

definition annotated :: "SnapshotOptions \<Rightarrow> string \<Rightarrow> string \<Rightarrow> nat \<Rightarrow> string" where
  "annotated options line ref idx =
     (case matchLine line of
        None \<Rightarrow> line
      | Some (pre, role, name, sfx) \<Rightarrow>
          if interactive options
          then ''- '' @ role @ nameText name @ refText ref idx
                 @ (if sfx \<noteq> [] \<and> includesStr ''['' sfx then sfx else [])
          else pre @ role @ nameText name @ refText ref idx @ sfx)"

text \<open>
  The lines for which a loop pushes a line, in order, each with the number of its ref
  when it gets one: the numbers count on from the counter \<open>c\<close>.
\<close>

fun numbered :: "SnapshotOptions \<Rightarrow> nat \<Rightarrow> string list \<Rightarrow> (string \<times> nat option) list" where
  "numbered options c [] = []"
| "numbered options c (l # ls) =
     (if refLine options l then (l, Some (Suc c)) # numbered options (Suc c) ls
      else if emitted options l then (l, None) # numbered options c ls
      else numbered options c ls)"

text \<open>
  An output line renders a numbered input line: unchanged when the line has no number,
  annotated with the ref id of its number otherwise.
\<close>

definition rendersAs :: "SnapshotOptions \<Rightarrow> string \<Rightarrow> string \<times> nat option \<Rightarrow> bool" where
  "rendersAs options out p =
     (case snd p of
        None \<Rightarrow> out = fst p
      | Some k \<Rightarrow> (\<exists>idx. out = annotated options (fst p) (refId k) idx))"

text \<open>The line of a cursor element that is given the ref \<open>ref\<close>.\<close>

definition cursorLineText :: "CursorElement \<Rightarrow> string \<Rightarrow> string" where
  "cursorLineText el ref =
     ''- '' @ cursorRole el @ '' '' @ [CHR 0x22] @ el_text el @ [CHR 0x22] @ '' [ref='' @ ref
       @ ''] ['' @ joinWith '', '' (cursorHints el) @ '']''"

text \<open>
  The number of elements that are to get a ref: in a tree, in a scope (the lines of its
  tree and, with \<^verbatim>\<open>cursor\<close>, the elements of the detector), and in a top-level call (the
  scopes of the regions, or the one scope).
\<close>

definition treeAssignments :: "SnapshotOptions \<Rightarrow> string \<Rightarrow> nat" where
  "treeAssignments options t = length (filter (refLine options) (splitNL t))"

definition scopeAssignments :: "Page \<Rightarrow> SnapshotOptions \<Rightarrow> nat" where
  "scopeAssignments page options =
     (case ariaSnapshot page (locatorOf options) of
        Inl e \<Rightarrow> 0
      | Inr t \<Rightarrow> treeAssignments options t)
     + (if cursor options then length (findCursorInteractiveElements page (selector options)) else 0)"

definition snapshotAssignments :: "Page \<Rightarrow> SnapshotOptions \<Rightarrow> nat" where
  "snapshotAssignments page options =
     (if noSelector options \<and> getMyheloActiveRegions page \<noteq> []
      then sum_list (map (\<lambda>sel. scopeAssignments page (options\<lparr>selector := Some sel\<rparr>))
                      (concat (map selectors (getMyheloActiveRegions page))))
      else scopeAssignments page options)"

section \<open>Facts about strings\<close>

lemma splitNL_nonempty: "splitNL s \<noteq> []"
  by (induction s) (auto split: list.splits)

lemma splitNL_noNL: "l \<in> set (splitNL s) \<Longrightarrow> CHR 0x0A \<notin> set l"
  by (induction s arbitrary: l) (auto split: list.splits if_splits)

lemma splitNL_line: "CHR 0x0A \<notin> set l \<Longrightarrow> splitNL l = [l]"
  by (induction l) auto

lemma splitNL_append: "CHR 0x0A \<notin> set l \<Longrightarrow> splitNL (l @ CHR 0x0A # r) = l # splitNL r"
  by (induction l) (auto simp: splitNL_nonempty split: list.splits)

lemma splitNL_joinNL:
  "ls \<noteq> [] \<Longrightarrow> (\<forall>l \<in> set ls. CHR 0x0A \<notin> set l) \<Longrightarrow> splitNL (joinNL ls) = ls"
  unfolding joinNL_def
proof (induction "[CHR 0x0A]" ls rule: joinWith.induct)
  case 1 then show ?case by simp
next
  case (2 l) then show ?case by (simp add: splitNL_line)
next
  case (3 l m ls)
  then show ?case by (simp add: splitNL_append)
qed

lemma length_joinWith: "length (joinWith sep ls) = sum_list (map length ls) + length sep * (length ls - 1)"
  by (induction sep ls rule: joinWith.induct) auto

lemma subseq_sum_length: "subseq A B \<Longrightarrow> sum_list (map length A) \<le> sum_list (map length (B::string list))"
  by (induction rule: list_emb.induct) auto

lemma length_joinNL_subseq:
  assumes "subseq A B" shows "length (joinNL A) \<le> length (joinNL B)"
proof -
  have "length A \<le> length B" using assms by (rule list_emb_length)
  then have "length A - 1 \<le> length B - 1" by simp
  with subseq_sum_length [OF assms] show ?thesis
    by (simp add: joinNL_def length_joinWith add_mono)
qed

lemma includesStr_prefix: "prefix p s \<Longrightarrow> includesStr p s"
  by (cases s) auto

lemma includesStr_append: "includesStr p (xs @ p @ ys)"
  by (induction xs) (auto simp: includesStr_prefix)

lemma includesStr_iff: "includesStr p s \<longleftrightarrow> (\<exists>xs ys. s = xs @ p @ ys)"
proof
  show "includesStr p s \<Longrightarrow> \<exists>xs ys. s = xs @ p @ ys"
  proof (induction s)
    case Nil then show ?case by simp
  next
    case (Cons c cs)
    then show ?case
    proof (cases "prefix p (c # cs)")
      case True
      then obtain ys where "c # cs = p @ ys" by (auto simp: prefix_def)
      then have "c # cs = [] @ p @ ys" by simp
      then show ?thesis by blast
    next
      case False
      with Cons obtain xs ys where "cs = xs @ p @ ys" by auto
      then have "c # cs = (c # xs) @ p @ ys" by simp
      then show ?thesis by blast
    qed
  qed
next
  show "\<exists>xs ys. s = xs @ p @ ys \<Longrightarrow> includesStr p s"
    by (auto simp: includesStr_append)
qed

section \<open>Decimal ref ids\<close>

lemma lt10_cases: "d < 10 \<Longrightarrow> d \<in> {0, 1, 2, 3, 4, 5, 6, 7, 8, 9::nat}"
  by auto

lemma digitVal_digitChar: "d < 10 \<Longrightarrow> digitVal (digitChar d) = d"
  by (drule lt10_cases) (auto simp: digitVal_def digitChar_def)

lemma isDigit_digitChar: "d < 10 \<Longrightarrow> isDigit (digitChar d)"
  by (drule lt10_cases) (auto simp: isDigit_def digitChar_def)

lemma readNat_snoc: "readNat (ds @ [c]) = 10 * readNat ds + digitVal c"
  by (simp add: readNat_def)

lemma readNat_showNat: "readNat (showNat n) = n"
proof (induction n rule: showNat.induct)
  case (1 n)
  show ?case
  proof (cases "n < 10")
    case True
    then show ?thesis
      by (subst showNat.simps) (simp add: readNat_def digitVal_digitChar)
  next
    case False
    with "1" have "readNat (showNat (n div 10)) = n div 10" by simp
    with False show ?thesis
      by (subst showNat.simps) (simp add: readNat_snoc digitVal_digitChar)
  qed
qed

lemma showNat_digits: "list_all isDigit (showNat n)"
proof (induction n rule: showNat.induct)
  case (1 n)
  show ?case
  proof (cases "n < 10")
    case True
    then show ?thesis by (subst showNat.simps) (simp add: isDigit_digitChar)
  next
    case False
    with "1" have "list_all isDigit (showNat (n div 10))" by simp
    with False show ?thesis by (subst showNat.simps) (simp add: isDigit_digitChar)
  qed
qed

lemma showNat_nonempty: "showNat n \<noteq> []"
  by (subst showNat.simps) simp

lemma showNat_inj: "showNat a = showNat b \<Longrightarrow> a = b"
  by (metis readNat_showNat)

lemma refId_inj: "refId a = refId b \<Longrightarrow> a = b"
  by (simp add: refId_def showNat_inj)

lemma isRefId_refId: "isRefId (refId k)"
  by (simp add: isRefId_def refId_def showNat_digits showNat_nonempty)

lemma refNumber_refId: "refNumber (refId k) = Some k"
  using isRefId_refId [of k] by (simp add: refNumber_def) (simp add: refId_def readNat_showNat)

lemma isDigit_not_NL: "isDigit c \<Longrightarrow> c \<noteq> CHR 0x0A"
  by (auto simp: isDigit_def)

lemma showNat_noNL: "CHR 0x0A \<notin> set (showNat n)"
  using showNat_digits [of n] by (auto simp: list_all_iff dest: isDigit_not_NL)

section \<open>The invariant of a snapshot call\<close>

lemma update_fresh: "k \<notin> fst ` set al \<Longrightarrow> AList.update k v al = al @ [(k, v)]"
  by (induction al) auto

lemma assignRef_effect:
  assumes "assignRef r n st = ((ref, idx), st')"
  shows "ref = refId (Suc (refCounter st))"
    and "idx = countOf st (getKey r n)"
    and "st' = st\<lparr>refCounter := Suc (refCounter st),
               counts := AList.update (getKey r n) (Suc (countOf st (getKey r n))) (counts st),
               refsByKey := AList.update (getKey r n) (refsOf st (getKey r n) @ [refId (Suc (refCounter st))]) (refsByKey st),
               refs := AList.update (refId (Suc (refCounter st)))
                   \<lparr>ref_selector = buildSelector r n, ref_role = r,
                    ref_name = n, ref_nth = Some (countOf st (getKey r n))\<rparr> (refs st)\<rparr>"
  using assms
  by (auto simp: assignRef_def nextRef_def getNextIndex_def trackRef_def Let_def refId_def
      countOf_def refsOf_def)

lemma fresh_refId:
  assumes "map fst rs = map refId [1..<Suc c]"
  shows "refId (Suc c) \<notin> fst ` set rs"
proof
  assume "refId (Suc c) \<in> fst ` set rs"
  then have "refId (Suc c) \<in> set (map fst rs)" by simp
  with assms have "refId (Suc c) \<in> refId ` set [1..<Suc c]" by (simp only: set_map)
  then obtain j where "j \<in> set [1..<Suc c]" "refId (Suc c) = refId j" by blast
  then have "j < Suc c" "Suc c = j" by (simp_all del: upt_Suc add: refId_inj)
  then show False by simp
qed

lemma nthsOK_snoc:
  assumes "nthsOK es"
    and "\<And>n. ref_nth (snd x) = Some n \<Longrightarrow> n = length (filter (trackedAs (entryKey (snd x))) es)"
  shows "nthsOK (es @ [x])"
  unfolding nthsOK_def
proof (intro allI impI)
  fix i n
  assume i: "i < length (es @ [x])" and n: "ref_nth (snd ((es @ [x]) ! i)) = Some n"
  show "n = length (filter (trackedAs (entryKey (snd ((es @ [x]) ! i)))) (take i (es @ [x])))"
  proof (cases "i < length es")
    case True
    with assms(1) n show ?thesis by (simp add: nthsOK_def nth_append)
  next
    case False
    with i have "i = length es" by simp
    with assms(2) n show ?thesis by simp
  qed
qed

lemma INV_push:
  assumes inv: "INV st"
    and tr: "isTreeRole r"
    and st': "st' = st\<lparr>refCounter := Suc (refCounter st),
               counts := AList.update (getKey r n) (Suc (countOf st (getKey r n))) (counts st),
               refsByKey := AList.update (getKey r n) (refsOf st (getKey r n) @ [refId (Suc (refCounter st))]) (refsByKey st),
               refs := AList.update (refId (Suc (refCounter st)))
                   \<lparr>ref_selector = sel, ref_role = r,
                    ref_name = n, ref_nth = Some (countOf st (getKey r n))\<rparr> (refs st)\<rparr>"
  shows "INV st'"
proof -
  define e where "e = \<lparr>ref_selector = sel, ref_role = r, ref_name = n,
                       ref_nth = Some (countOf st (getKey r n))\<rparr>"
  define ref where "ref = refId (Suc (refCounter st))"
  from inv have keys: "map fst (refs st) = map refId [1..<Suc (refCounter st)]"
    and cnt: "\<And>k. countOf st k = length (filter (trackedAs k) (refs st))"
    and byk: "\<And>k. length (refsOf st k) = length (filter (trackedAs k) (refs st))"
    and dist: "distinct (map fst (refsByKey st))"
    and nths: "nthsOK (refs st)"
    and roles: "\<forall>p \<in> set (refs st). (ref_nth (snd p) \<noteq> None) = isTreeRole (ref_role (snd p))"
    by (simp_all add: INV_def)
  have refs': "refs st' = refs st @ [(ref, e)]"
    using update_fresh [OF fresh_refId [OF keys]] by (simp add: st' e_def ref_def)
  have ctr: "refCounter st' = Suc (refCounter st)" by (simp add: st')
  have e: "ref_nth e = Some (countOf st (getKey r n))" "entryKey e = getKey r n" "ref_role e = r"
    by (simp_all add: e_def entryKey_def)
  have tk: "trackedAs k (ref, e) = (k = getKey r n)" for k
    by (auto simp: trackedAs_def e)
  have 1: "map fst (refs st') = map refId [1..<Suc (refCounter st')]"
    using keys by (simp add: refs' ctr ref_def)
  have "countOf st' k = (if k = getKey r n then Suc (countOf st (getKey r n)) else countOf st k)" for k
    by (simp add: st' countOf_def update_conv')
  then have 2: "countOf st' k = length (filter (trackedAs k) (refs st'))" for k
    by (simp add: refs' tk cnt)
  have "length (refsOf st' k) = (if k = getKey r n then Suc (length (refsOf st (getKey r n))) else length (refsOf st k))" for k
    by (simp add: st' refsOf_def update_conv')
  then have 3: "length (refsOf st' k) = length (filter (trackedAs k) (refs st'))" for k
    by (simp add: refs' tk byk)
  have 4: "distinct (map fst (refsByKey st'))"
    using dist by (simp add: st' distinct_update)
  have 5: "nthsOK (refs st')"
    unfolding refs'
  proof (rule nthsOK_snoc)
    show "nthsOK (refs st)" by (rule nths)
    show "\<And>m. ref_nth (snd (ref, e)) = Some m \<Longrightarrow>
            m = length (filter (trackedAs (entryKey (snd (ref, e)))) (refs st))"
      by (simp add: e cnt)
  qed
  have 6: "\<forall>p \<in> set (refs st'). (ref_nth (snd p) \<noteq> None) = isTreeRole (ref_role (snd p))"
    using roles tr by (simp add: refs' e)
  show ?thesis unfolding INV_def using 1 2 3 4 5 6 by blast
qed

lemma assignRef_INV:
  assumes "INV st" "isTreeRole r" "assignRef r n st = ((ref, idx), st')"
  shows "INV st'"
  using assignRef_effect(3) [OF assms(3)] INV_push [OF assms(1,2)] by blast

lemma INV_push_cursor:
  assumes inv: "INV st"
    and tr: "\<not> isTreeRole r"
    and st': "st' = st\<lparr>refCounter := Suc (refCounter st),
               refs := AList.update (refId (Suc (refCounter st)))
                   \<lparr>ref_selector = sel, ref_role = r, ref_name = n, ref_nth = None\<rparr> (refs st)\<rparr>"
  shows "INV st'"
proof -
  define e where "e = \<lparr>ref_selector = sel, ref_role = r, ref_name = n, ref_nth = None\<rparr>"
  define ref where "ref = refId (Suc (refCounter st))"
  from inv have keys: "map fst (refs st) = map refId [1..<Suc (refCounter st)]"
    and cnt: "\<And>k. countOf st k = length (filter (trackedAs k) (refs st))"
    and byk: "\<And>k. length (refsOf st k) = length (filter (trackedAs k) (refs st))"
    and dist: "distinct (map fst (refsByKey st))"
    and nths: "nthsOK (refs st)"
    and roles: "\<forall>p \<in> set (refs st). (ref_nth (snd p) \<noteq> None) = isTreeRole (ref_role (snd p))"
    by (simp_all add: INV_def)
  have refs': "refs st' = refs st @ [(ref, e)]"
    using update_fresh [OF fresh_refId [OF keys]] by (simp add: st' e_def ref_def)
  have ctr: "refCounter st' = Suc (refCounter st)" by (simp add: st')
  have e: "ref_nth e = None" "ref_role e = r" by (simp_all add: e_def)
  have tk: "trackedAs k (ref, e) = False" for k
    by (auto simp: trackedAs_def e)
  have 1: "map fst (refs st') = map refId [1..<Suc (refCounter st')]"
    using keys by (simp add: refs' ctr ref_def)
  have "countOf st' k = countOf st k" for k by (simp add: st' countOf_def)
  then have 2: "countOf st' k = length (filter (trackedAs k) (refs st'))" for k
    by (simp add: refs' tk cnt)
  have "refsOf st' k = refsOf st k" for k by (simp add: st' refsOf_def)
  then have 3: "length (refsOf st' k) = length (filter (trackedAs k) (refs st'))" for k
    by (simp add: refs' tk byk)
  have 4: "distinct (map fst (refsByKey st'))"
    using dist by (simp add: st')
  have 5: "nthsOK (refs st')"
    unfolding refs' by (rule nthsOK_snoc [OF nths]) (simp add: e)
  have 6: "\<forall>p \<in> set (refs st'). (ref_nth (snd p) \<noteq> None) = isTreeRole (ref_role (snd p))"
    using roles tr by (simp add: refs' e)
  show ?thesis unfolding INV_def using 1 2 3 4 5 6 by blast
qed

lemma cursorRole_not_tree: "\<not> isTreeRole (cursorRole el)"
  by (simp add: cursorRole_def isTreeRole_def INTERACTIVE_ROLES_def CONTENT_ROLES_def)

lemma processLine_INV:
  assumes "INV st" "processLine line options st = (out, st')"
  shows "INV st'"
  using assms
  by (auto simp: processLine_def Let_def isTreeRole_def
      split: if_splits option.splits prod.splits dest: assignRef_INV [rotated 2])

lemma interactiveLine_INV:
  assumes "INV st" "interactiveLine line options st = (out, st')"
  shows "INV st'"
  using assms
  by (auto simp: interactiveLine_def Let_def isTreeRole_def
      split: if_splits option.splits prod.splits dest: assignRef_INV [rotated 2])

lemma collectLines_INV:
  assumes step: "\<And>l s out s'. INV s \<Longrightarrow> f l s = (out, s') \<Longrightarrow> INV s'"
  shows "INV st \<Longrightarrow> collectLines f ls st = (outs, st') \<Longrightarrow> INV st'"
proof (induction ls arbitrary: st outs st')
  case Nil
  then show ?case by simp
next
  case (Cons l ls)
  obtain out s1 where f: "f l st = (out, s1)" by (cases "f l st")
  obtain os s2 where c: "collectLines f ls s1 = (os, s2)" by (cases "collectLines f ls s1")
  from step [OF Cons.prems(1) f] have "INV s1" .
  from Cons.IH [OF this c] have "INV s2" .
  moreover from Cons.prems(2) f c have "st' = s2" by (cases out) auto
  ultimately show ?case by simp
qed

lemma processAriaTree_INV:
  assumes "INV st" "processAriaTree t options False st = (out, st')"
  shows "INV st'"
proof (cases "interactive options")
  case True
  obtain r s1 where c: "collectLines (\<lambda>l. interactiveLine l options) (splitNL t) st = (r, s1)"
    by (cases "collectLines (\<lambda>l. interactiveLine l options) (splitNL t) st")
  from collectLines_INV [where f = "\<lambda>l. interactiveLine l options", OF _ assms(1) c]
  have "INV s1" using interactiveLine_INV by blast
  with assms(2) True c show ?thesis by (auto simp: processAriaTree_def Let_def)
next
  case False
  obtain r s1 where c: "collectLines (\<lambda>l. processLine l options) (splitNL t) st = (r, s1)"
    by (cases "collectLines (\<lambda>l. processLine l options) (splitNL t) st")
  from collectLines_INV [where f = "\<lambda>l. processLine l options", OF _ assms(1) c]
  have "INV s1" using processLine_INV by blast
  with assms(2) False c show ?thesis by (auto simp: processAriaTree_def Let_def)
qed

lemma cursorLines_INV:
  "INV st \<Longrightarrow> cursorLines els st = (ls, st') \<Longrightarrow> INV st'"
proof (induction els arbitrary: st ls st')
  case Nil
  then show ?case by simp
next
  case (Cons el els)
  define s2 where "s2 = st\<lparr>refCounter := Suc (refCounter st),
               refs := AList.update (refId (Suc (refCounter st)))
                   \<lparr>ref_selector = el_selector el, ref_role = cursorRole el,
                    ref_name = Some (el_text el), ref_nth = None\<rparr> (refs st)\<rparr>"
  have "INV s2"
    by (rule INV_push_cursor [OF Cons.prems(1) cursorRole_not_tree]) (simp add: s2_def)
  obtain ls2 s3 where c: "cursorLines els s2 = (ls2, s3)" by (cases "cursorLines els s2")
  from Cons.IH [OF \<open>INV s2\<close> c] have "INV s3" .
  moreover from Cons.prems(2) c have "st' = s3"
    by (simp add: nextRef_def Let_def s2_def refId_def)
  ultimately show ?case by simp
qed

lemma getEnhancedSnapshotForScope_INV:
  assumes "INV st" "getEnhancedSnapshotForScope page options st = (out, st')"
  shows "INV st'"
proof -
  define base where "base =
            (case ariaSnapshot page (locatorOf options) of
               Inl e \<Rightarrow> (emptyTree options, st)
             | Inr ariaTree \<Rightarrow>
                 if ariaTree \<noteq> [] then processAriaTree ariaTree options False st
                 else if interactive options then (''(no interactive elements)'', st)
                 else (''(empty)'', st))"
  obtain t1 s1 where b: "base = (t1, s1)" by (cases base)
  have "INV s1"
    using b assms(1) unfolding base_def
    by (auto split: sum.splits if_splits dest: processAriaTree_INV)
  obtain ls s2 where c: "cursorLines (findCursorInteractiveElements page (selector options)) s1 = (ls, s2)"
    by (cases "cursorLines (findCursorInteractiveElements page (selector options)) s1")
  from cursorLines_INV [OF \<open>INV s1\<close> c] have "INV s2" .
  from assms(2) have "st' = s1 \<or> st' = s2"
    unfolding getEnhancedSnapshotForScope_def base_def [symmetric] b
    by (auto simp: Let_def c split: if_splits)
  with \<open>INV s1\<close> \<open>INV s2\<close> show ?thesis by blast
qed

lemma sectionParts_INV:
  "INV st \<Longrightarrow> sectionParts page options sels st = (parts, st') \<Longrightarrow> INV st'"
proof (induction sels arbitrary: st parts st')
  case Nil
  then show ?case by simp
next
  case (Cons sel sels)
  obtain t s1 where a: "getEnhancedSnapshotForScope page (options\<lparr>selector := Some sel\<rparr>) st = (t, s1)"
    by (cases "getEnhancedSnapshotForScope page (options\<lparr>selector := Some sel\<rparr>) st")
  obtain ps s2 where b: "sectionParts page options sels s1 = (ps, s2)"
    by (cases "sectionParts page options sels s1")
  from getEnhancedSnapshotForScope_INV [OF Cons.prems(1) a] have "INV s1" .
  from Cons.IH [OF this b] have "INV s2" .
  moreover from Cons.prems(2) a b have "st' = s2" by (auto split: if_splits)
  ultimately show ?case by simp
qed

lemma buildMyheloRegionSection_INV:
  assumes "INV st" "buildMyheloRegionSection page options sels st = (t, st')"
  shows "INV st'"
proof -
  obtain ps s1 where a: "sectionParts page options sels st = (ps, s1)"
    by (cases "sectionParts page options sels st")
  from sectionParts_INV [OF assms(1) a] have "INV s1" .
  moreover from assms(2) a have "st' = s1"
    by (auto simp: buildMyheloRegionSection_def split: if_splits)
  ultimately show ?thesis by simp
qed

lemma regionSections_INV:
  "INV st \<Longrightarrow> regionSections page options regions st = (sections, st') \<Longrightarrow> INV st'"
proof (induction regions arbitrary: st sections st')
  case Nil
  then show ?case by simp
next
  case (Cons region regions)
  obtain t s1 where t: "buildMyheloRegionSection page options (selectors region) st = (t, s1)"
    by (cases "buildMyheloRegionSection page options (selectors region) st")
  obtain ss s2 where b: "regionSections page options regions s1 = (ss, s2)"
    by (cases "regionSections page options regions s1")
  from buildMyheloRegionSection_INV [OF Cons.prems(1) t] have "INV s1" .
  from Cons.IH [OF this b] have "INV s2" .
  moreover from Cons.prems(2) t b have "st' = s2" by auto
  ultimately show ?case by simp
qed

lemma INV_initial: "INV (createRoleNameTracker ((resetRefs st0)\<lparr>refs := []\<rparr>))"
  by (simp add: INV_def createRoleNameTracker_def resetRefs_def countOf_def refsOf_def nthsOK_def)

text \<open>The state before the final strip of the top-level call.\<close>

lemma getEnhancedSnapshot_pre:
  "\<exists>st1. INV st1 \<and> getEnhancedSnapshot page options st0
      = (\<lparr>tree = tree (fst (getEnhancedSnapshot page options st0)),
          snap_refs = refs (removeNthFromNonDuplicates st1)\<rparr>, removeNthFromNonDuplicates st1)"
proof -
  define st where "st = createRoleNameTracker ((resetRefs st0)\<lparr>refs := []\<rparr>)"
  have i: "INV st" unfolding st_def by (rule INV_initial)
  define regions where "regions = getMyheloActiveRegions page"
  show ?thesis
  proof (cases "noSelector options \<and> regions \<noteq> []")
    case True
    obtain ss s1 where a: "regionSections page options regions st = (ss, s1)"
      by (cases "regionSections page options regions st")
    from regionSections_INV [OF i a] have "INV s1" .
    moreover have "getEnhancedSnapshot page options st0
      = (\<lparr>tree = joinWith [CHR 0x0A, CHR 0x0A] ss, snap_refs = refs (removeNthFromNonDuplicates s1)\<rparr>,
         removeNthFromNonDuplicates s1)"
      using True a
      by (simp add: getEnhancedSnapshot_def Let_def st_def [symmetric] regions_def [symmetric])
    ultimately show ?thesis by auto
  next
    case False
    obtain t s1 where a: "getEnhancedSnapshotForScope page options st = (t, s1)"
      by (cases "getEnhancedSnapshotForScope page options st")
    from getEnhancedSnapshotForScope_INV [OF i a] have "INV s1" .
    moreover have "getEnhancedSnapshot page options st0
      = (\<lparr>tree = t, snap_refs = refs (removeNthFromNonDuplicates s1)\<rparr>,
         removeNthFromNonDuplicates s1)"
      using False a
      by (simp add: getEnhancedSnapshot_def Let_def st_def [symmetric] regions_def [symmetric])
    ultimately show ?thesis by auto
  qed
qed

section \<open>Keys of the RefMap\<close>

lemma removeNth_keys: "map fst (refs (removeNthFromNonDuplicates st)) = map fst (refs st)"
  by (simp add: removeNthFromNonDuplicates_def Let_def comp_def case_prod_beta)

lemma initial_state_fixed:
  "createRoleNameTracker ((resetRefs st0)\<lparr>refs := []\<rparr>)
     = \<lparr>refCounter = 0, refs = [], counts = [], refsByKey = []\<rparr>"
  by (simp add: createRoleNameTracker_def resetRefs_def)

lemma getEnhancedSnapshot_state_independent:
  "getEnhancedSnapshot page options st0 = getEnhancedSnapshot page options st0'"
  by (simp add: getEnhancedSnapshot_def initial_state_fixed)

section \<open>Disambiguation by nth (C2)\<close>

lemma dupKeys_iff:
  "distinct (map fst al) \<Longrightarrow>
   k \<in> set (map fst (filter (\<lambda>kr. length (snd kr) > 1) al))
     \<longleftrightarrow> (case map_of al k of None \<Rightarrow> False | Some r \<Rightarrow> length r > 1)"
proof (induction al)
  case Nil
  then show ?case by simp
next
  case (Cons a al)
  then show ?case by (cases a) (force split: option.splits)
qed

lemma duplicate_key_iff:
  assumes "INV st"
  shows "k \<in> set (getDuplicateKeys st) \<longleftrightarrow> 2 \<le> length (filter (trackedAs k) (refs st))"
proof -
  from assms have d: "distinct (map fst (refsByKey st))"
    and byk: "length (refsOf st k) = length (filter (trackedAs k) (refs st))"
    by (simp_all add: INV_def)
  have "k \<in> set (getDuplicateKeys st) \<longleftrightarrow> 1 < length (refsOf st k)"
    unfolding getDuplicateKeys_def dupKeys_iff [OF d] refsOf_def
    by (simp split: option.splits)
  with byk show ?thesis by auto
qed

lemma removeNth_refs:
  "refs (removeNthFromNonDuplicates st) = map (stripNth (getDuplicateKeys st)) (refs st)"
  by (auto simp: removeNthFromNonDuplicates_def Let_def stripNth_def entryKey_def)

lemma stripNth_key [simp]: "entryKey (snd (stripNth d p)) = entryKey (snd p)"
  and stripNth_role [simp]: "ref_role (snd (stripNth d p)) = ref_role (snd p)"
  by (simp_all add: stripNth_def entryKey_def)

lemma filter_sameTreeKey:
  assumes "\<forall>p \<in> set es. (ref_nth (snd p) \<noteq> None) = isTreeRole (ref_role (snd p))"
  shows "length (filter (sameTreeKey k) (map (stripNth d) es)) = length (filter (trackedAs k) es)"
proof -
  have "filter (sameTreeKey k \<circ> stripNth d) es = filter (trackedAs k) es"
    using assms by (intro filter_cong) (auto simp: sameTreeKey_def trackedAs_def)
  then show ?thesis by (simp add: filter_map)
qed

text \<open>
  C2, as stated, fails on entries of the cursor-interactive detector: two clickable
  elements with the same label give two entries with the same (role, name) and neither
  carries \<^verbatim>\<open>nth\<close>.
\<close>

theorem cursor_entries_share_key_without_nth:
  "snap_refs (fst (getEnhancedSnapshot page_two_save_divs (defaultOptions\<lparr>cursor := True\<rparr>) freshState))
     = [(''e1'', \<lparr>ref_selector = ''#a'', ref_role = ''clickable'', ref_name = Some ''Save'', ref_nth = None\<rparr>),
        (''e2'', \<lparr>ref_selector = ''#b'', ref_role = ''clickable'', ref_name = Some ''Save'', ref_nth = None\<rparr>)]"
  by code_simp

text \<open>
  C2, amended. Among the entries that the tree pipeline makes (those with an Interactive or
  Content role), the entries sharing one (role, name) key carry \<^verbatim>\<open>nth\<close> 0, 1, ..., k-1 in
  discovery order when there are at least two of them, and no \<^verbatim>\<open>nth\<close> when there is one.
  Every other entry (the cursor detector's) carries no \<^verbatim>\<open>nth\<close>.
\<close>

theorem nth_disambiguation:
  assumes "i < length (snap_refs (fst (getEnhancedSnapshot page options st0)))"
  shows "(let rs = snap_refs (fst (getEnhancedSnapshot page options st0));
              e = snd (rs ! i);
              k = entryKey e
          in if isTreeRole (ref_role e) then
               (if 2 \<le> length (filter (sameTreeKey k) rs)
                then ref_nth e = Some (length (filter (sameTreeKey k) (take i rs)))
                else ref_nth e = None)
             else ref_nth e = None)"
proof -
  obtain st1 where inv: "INV st1"
    and eq: "getEnhancedSnapshot page options st0
      = (\<lparr>tree = tree (fst (getEnhancedSnapshot page options st0)),
          snap_refs = refs (removeNthFromNonDuplicates st1)\<rparr>, removeNthFromNonDuplicates st1)"
    using getEnhancedSnapshot_pre by blast
  define rs where "rs = snap_refs (fst (getEnhancedSnapshot page options st0))"
  define es where "es = refs st1"
  define d where "d = getDuplicateKeys st1"
  have rs: "rs = map (stripNth d) es"
    unfolding rs_def es_def d_def by (subst eq) (simp add: removeNth_refs)
  from assms have i: "i < length es" by (simp add: rs_def [symmetric] rs)
  define p where "p = es ! i"
  define k where "k = entryKey (snd p)"
  from inv have roles: "\<forall>p \<in> set es. (ref_nth (snd p) \<noteq> None) = isTreeRole (ref_role (snd p))"
    and nths: "nthsOK es"
    by (simp_all add: INV_def es_def)
  have e: "rs ! i = stripNth d p" using i by (simp add: rs p_def)
  have ek: "entryKey (snd (rs ! i)) = k" and er: "ref_role (snd (rs ! i)) = ref_role (snd p)"
    by (simp_all add: e k_def)
  have cnt: "length (filter (sameTreeKey k) rs) = length (filter (trackedAs k) es)"
    unfolding rs by (rule filter_sameTreeKey [OF roles])
  have "\<forall>p \<in> set (take i es). (ref_nth (snd p) \<noteq> None) = isTreeRole (ref_role (snd p))"
    using roles by (auto dest: in_set_takeD)
  then have cnt_i: "length (filter (sameTreeKey k) (take i rs)) = length (filter (trackedAs k) (take i es))"
    unfolding rs take_map by (rule filter_sameTreeKey)
  have dup: "k \<in> set d \<longleftrightarrow> 2 \<le> length (filter (trackedAs k) es)"
    unfolding d_def es_def by (rule duplicate_key_iff [OF inv])
  have pin: "p \<in> set es" using i by (simp add: p_def)
  have main: "if isTreeRole (ref_role (snd p)) then
               (if 2 \<le> length (filter (trackedAs k) es)
                then ref_nth (snd (stripNth d p)) = Some (length (filter (trackedAs k) (take i es)))
                else ref_nth (snd (stripNth d p)) = None)
             else ref_nth (snd (stripNth d p)) = None"
  proof (cases "isTreeRole (ref_role (snd p))")
    case True
    with roles pin obtain n where n: "ref_nth (snd p) = Some n" by auto
    with nths i have "n = length (filter (trackedAs k) (take i es))"
      by (simp add: nthsOK_def p_def k_def)
    with True n dup show ?thesis by (simp add: stripNth_def k_def)
  next
    case False
    with roles pin have "ref_nth (snd p) = None" by auto
    with False show ?thesis by (simp add: stripNth_def)
  qed
  have en: "ref_nth (snd (rs ! i)) = ref_nth (snd (stripNth d p))" by (simp add: e)
  show ?thesis
    unfolding Let_def rs_def [symmetric] ek er cnt cnt_i en using main by simp
qed

theorem nth_disambiguation_witness:
  "1 < length (snap_refs (fst (getEnhancedSnapshot page_two_buttons defaultOptions freshState)))
   \<and> ref_nth (snd (snap_refs (fst (getEnhancedSnapshot page_two_buttons defaultOptions freshState)) ! 1))
       = Some 1"
proof -
  have ev: "snap_refs (fst (getEnhancedSnapshot page_two_buttons defaultOptions freshState))
     = [(''e1'', \<lparr>ref_selector = buildSelector ''button'' (Some ''A''), ref_role = ''button'',
                  ref_name = Some ''A'', ref_nth = Some 0\<rparr>),
        (''e2'', \<lparr>ref_selector = buildSelector ''button'' (Some ''A''), ref_role = ''button'',
                  ref_name = Some ''A'', ref_nth = Some 1\<rparr>)]"
    by code_simp
  have h: "1 < length (snap_refs (fst (getEnhancedSnapshot page_two_buttons defaultOptions freshState)))"
    by (simp add: ev)
  from nth_disambiguation [OF h] show ?thesis
    unfolding ev
    by (simp add: Let_def isTreeRole_def INTERACTIVE_ROLES_def sameTreeKey_def entryKey_def
        getKey_def split: if_splits)
qed

section \<open>Failing acquisition (C3)\<close>

lemma getEnhancedSnapshotForScope_recovers:
  assumes "ariaSnapshot page (locatorOf options) = Inl e \<or> ariaSnapshot page (locatorOf options) = Inr []"
    and "findCursorInteractiveElements page (selector options) = []"
  shows "getEnhancedSnapshotForScope page options st = (emptyTree options, st)"
  using assms by (auto simp: getEnhancedSnapshotForScope_def emptyTree_def Let_def)

lemma findCursorInteractiveElements_recovers:
  "cursorScan page (case sel of None \<Rightarrow> ''body'' | Some s \<Rightarrow> if s = [] then ''body'' else s) = Inl e
     \<Longrightarrow> findCursorInteractiveElements page sel = []"
  by (simp add: findCursorInteractiveElements_def Let_def)

lemma getMyheloActiveRegions_recovers:
  "regionScan page = Inl e \<Longrightarrow> getMyheloActiveRegions page = []"
  by (simp add: getMyheloActiveRegions_def)

text \<open>
  C3. A locator whose \<^verbatim>\<open>ariaSnapshot()\<close> throws: \<^verbatim>\<open>getEnhancedSnapshot\<close> of
  \<^verbatim>\<open>src/snapshot.ts\<close> ends with that exception, while the region-aware module on the same
  page and options recovers and gives the tree \<^verbatim>\<open>(empty)\<close> with no refs.
\<close>

theorem snapshot_ts_locator_error_propagates:
  "snapshot_ts_getEnhancedSnapshot page_locator_throws (defaultOptions\<lparr>selector := Some ''#missing''\<rparr>)
       freshState = Inl (Thrown ''strict mode violation'')
   \<and> fst (getEnhancedSnapshot page_locator_throws (defaultOptions\<lparr>selector := Some ''#missing''\<rparr>)
       freshState) = \<lparr>tree = ''(empty)'', snap_refs = []\<rparr>"
  by code_simp

section \<open>Lines outside the grammar\<close>



lemma matchLine_role_word:
  assumes "matchLine line = Some (pre, role, name, sfx)"
  shows "role \<noteq> [] \<and> (\<forall>c \<in> set role. isWord c)"
  using assms
  by (auto simp: matchLine_def Let_def split: list.splits if_splits option.splits
      dest: set_takeWhileD)

text \<open>The guard on \<^verbatim>\<open>role.startsWith('/')\<close> never fires: a role is made of word characters.\<close>

lemma role_not_slash:
  assumes "matchLine line = Some (pre, role, name, sfx)"
  shows "\<not> startsWith ''/'' role"
proof -
  from matchLine_role_word [OF assms] obtain c cs where "role = c # cs" "isWord c"
    by (cases role) auto
  then show ?thesis by (auto simp: startsWith_def isWord_def)
qed

section \<open>Sorting and the greedy walk of the cursor detector\<close>

lemma set_insertBy: "set (insertBy cmp x xs) = insert x (set xs)"
  by (induction xs) auto

lemma mset_insertBy: "mset (insertBy cmp x xs) = add_mset x (mset xs)"
  by (induction xs) auto

lemma mset_sortBy: "mset (sortBy cmp xs) = mset xs"
  by (induction xs) (simp_all add: sortBy_def mset_insertBy)

lemma set_sortBy: "set (sortBy cmp xs) = set xs"
  by (metis mset_sortBy set_mset_mset)

lemma sorted_insertBy:
  assumes total: "\<And>a b. cmp a b \<le> 0 \<or> cmp b a \<le> 0"
    and trans: "\<And>a b c. cmp a b \<le> 0 \<Longrightarrow> cmp b c \<le> 0 \<Longrightarrow> cmp a c \<le> 0"
  shows "sorted_wrt (\<lambda>a b. cmp a b \<le> 0) xs \<Longrightarrow> sorted_wrt (\<lambda>a b. cmp a b \<le> 0) (insertBy cmp x xs)"
proof (induction xs)
  case Nil
  then show ?case by simp
next
  case (Cons y ys)
  show ?case
  proof (cases "cmp x y \<le> 0")
    case True
    with Cons.prems trans show ?thesis by auto
  next
    case False
    with total [of x y] have "cmp y x \<le> 0" by simp
    with False Cons show ?thesis by (auto simp: set_insertBy)
  qed
qed

lemma sorted_sortBy:
  assumes total: "\<And>a b. cmp a b \<le> 0 \<or> cmp b a \<le> 0"
    and trans: "\<And>a b c. cmp a b \<le> 0 \<Longrightarrow> cmp b c \<le> 0 \<Longrightarrow> cmp a c \<le> 0"
  shows "sorted_wrt (\<lambda>a b. cmp a b \<le> 0) (sortBy cmp xs)"
proof (induction xs)
  case Nil
  then show ?case by (simp add: sortBy_def)
next
  case (Cons x xs)
  have "sortBy cmp (x # xs) = insertBy cmp x (sortBy cmp xs)" by (simp add: sortBy_def)
  with sorted_insertBy [of cmp, OF total trans Cons] show ?case by simp
qed

text \<open>A symmetric relation that holds between all members survives any reordering.\<close>

lemma pairwise_insertBy:
  assumes "\<And>a b. R a b \<Longrightarrow> R b a"
  shows "sorted_wrt R xs \<Longrightarrow> \<forall>y \<in> set xs. R x y \<Longrightarrow> sorted_wrt R (insertBy cmp x xs)"
  using assms by (induction xs) (auto simp: set_insertBy)

lemma pairwise_sortBy:
  assumes sym: "\<And>a b. R a b \<Longrightarrow> R b a"
  shows "sorted_wrt R xs \<Longrightarrow> sorted_wrt R (sortBy cmp xs)"
proof (induction xs)
  case Nil
  then show ?case by (simp add: sortBy_def)
next
  case (Cons x xs)
  have "sortBy cmp (x # xs) = insertBy cmp x (sortBy cmp xs)" by (simp add: sortBy_def)
  moreover from Cons have "sorted_wrt R (sortBy cmp xs)" "\<forall>y \<in> set (sortBy cmp xs). R x y"
    by (simp_all add: set_sortBy)
  ultimately show ?case using pairwise_insertBy [of R, OF sym] by simp
qed

lemma labeled_score: "labeled c \<longleftrightarrow> 8 \<le> scoreCandidate c"
  by (auto simp: labeled_def scoreCandidate_def)

lemma compareCandidates_le:
  "compareCandidates a b \<le> 0 \<longleftrightarrow>
     scoreCandidate b < scoreCandidate a
     \<or> (scoreCandidate a = scoreCandidate b
        \<and> (if labeled a then depth a < depth b \<or> (depth a = depth b \<and> c_order a \<le> c_order b)
            else depth b < depth a \<or> (depth a = depth b \<and> c_order a \<le> c_order b)))"
proof (cases "scoreCandidate a = scoreCandidate b")
  case True
  then have "labeled a = labeled b" by (simp add: labeled_score)
  with True show ?thesis
    by (auto simp: compareCandidates_def Let_def labeled_def)
next
  case False
  then show ?thesis by (auto simp: compareCandidates_def Let_def)
qed

lemma compareCandidates_total: "compareCandidates a b \<le> 0 \<or> compareCandidates b a \<le> 0"
proof (cases "scoreCandidate a = scoreCandidate b")
  case True
  then have "labeled a = labeled b" by (simp add: labeled_score)
  with True show ?thesis unfolding compareCandidates_le by auto
next
  case False
  then show ?thesis unfolding compareCandidates_le by auto
qed

lemma compareCandidates_trans:
  assumes "compareCandidates a b \<le> 0" "compareCandidates b c \<le> 0"
  shows "compareCandidates a c \<le> 0"
proof -
  have l: "scoreCandidate a = scoreCandidate b \<Longrightarrow> labeled a = labeled b"
    "scoreCandidate b = scoreCandidate c \<Longrightarrow> labeled b = labeled c"
    by (simp_all add: labeled_score)
  from assms l show ?thesis unfolding compareCandidates_le
    by (auto split: if_splits)
qed

lemma compareCandidates_spec: "compareCandidates a b \<le> 0 \<Longrightarrow> specPrecedes a b"
proof -
  assume h: "compareCandidates a b \<le> 0"
  have "scoreCandidate a = scoreCandidate b \<Longrightarrow> labeled a = labeled b"
    by (simp add: labeled_score)
  with h show ?thesis unfolding compareCandidates_le specPrecedes_def
    by (auto split: if_splits)
qed

lemma selectCandidates_pairwise_aux:
  "sorted_wrt (noContainment contains) acc \<Longrightarrow>
   sorted_wrt (noContainment contains)
     (foldl (\<lambda>selected candidate.
              if overlaps contains selected candidate then selected
              else selected @ [candidate]) acc cs)"
proof (induction cs arbitrary: acc)
  case Nil
  then show ?case by simp
next
  case (Cons c cs)
  show ?case
  proof (cases "overlaps contains acc c")
    case True
    with Cons show ?thesis by simp
  next
    case False
    then have "\<forall>a \<in> set acc. noContainment contains a c"
      by (auto simp: overlaps_def noContainment_def list_ex_iff)
    with Cons.prems have "sorted_wrt (noContainment contains) (acc @ [c])"
      by (simp add: sorted_wrt_append)
    from Cons.IH [OF this] False show ?thesis by simp
  qed
qed

lemma selectCandidates_pairwise: "sorted_wrt (noContainment contains) (selectCandidates contains cs)"
  unfolding selectCandidates_def by (rule selectCandidates_pairwise_aux) simp

lemma selectCandidates_subset_aux:
  "set (foldl (\<lambda>selected candidate.
              if overlaps contains selected candidate then selected
              else selected @ [candidate]) acc cs) \<subseteq> set acc \<union> set cs"
proof (induction cs arbitrary: acc)
  case Nil
  then show ?case by simp
next
  case (Cons c cs)
  define acc' where "acc' = (if overlaps contains acc c then acc else acc @ [c])"
  have "set acc' \<subseteq> set acc \<union> {c}" by (auto simp: acc'_def)
  with Cons [of acc'] show ?case unfolding acc'_def by auto
qed

lemma selectCandidates_subset: "set (selectCandidates contains cs) \<subseteq> set cs"
  unfolding selectCandidates_def using selectCandidates_subset_aux [of contains "[]" cs] by simp

section \<open>Regions and their sections (C9)\<close>

lemma uniqueElements_empty: "uniqueElements seen xs = [] \<longleftrightarrow> set xs \<subseteq> set seen"
  by (induction xs arbitrary: seen) auto

lemma sortBy_empty: "sortBy cmp xs = [] \<longleftrightarrow> xs = []"
  using set_sortBy [of cmp xs] by (metis set_empty)

lemma foldl_keep_nonempty:
  "acc \<noteq> [] \<Longrightarrow> foldl (\<lambda>selected candidate. if P selected candidate then selected
                                     else selected @ [candidate]) acc xs \<noteq> []"
  by (induction xs arbitrary: acc) auto

lemma dedupeTopLevelElements_empty: "dedupeTopLevelElements doc es = [] \<longleftrightarrow> es = []"
proof
  assume "es = []"
  then show "dedupeTopLevelElements doc es = []"
    by (simp add: dedupeTopLevelElements_def sortBy_def)
next
  assume d: "dedupeTopLevelElements doc es = []"
  show "es = []"
  proof (rule ccontr)
    assume "es \<noteq> []"
    then have "uniqueElements [] es \<noteq> []" by (simp add: uniqueElements_empty)
    then have "sortBy (\<lambda>a b. int (getDepth doc a) - int (getDepth doc b)) (uniqueElements [] es) \<noteq> []"
      by (simp add: sortBy_empty)
    then obtain x xs where
      s: "sortBy (\<lambda>a b. int (getDepth doc a) - int (getDepth doc b)) (uniqueElements [] es) = x # xs"
      by (cases "sortBy (\<lambda>a b. int (getDepth doc a) - int (getDepth doc b)) (uniqueElements [] es)") auto
    have "dedupeTopLevelElements doc es \<noteq> []"
      unfolding dedupeTopLevelElements_def s
      by (simp add: foldl_keep_nonempty)
    with d show False by simp
  qed
qed

lemma collectRegionSelectors_empty:
  "k \<noteq> fab \<Longrightarrow> collectRegionSelectors doc (regionCandidates k) = [] \<longleftrightarrow> regionMatches doc k = []"
  by (simp add: collectRegionSelectors_def Let_def dedupeTopLevelElements_empty regionMatches_def)

lemma collectFabSelectors_empty: "collectFabSelectors doc = [] \<longleftrightarrow> regionMatches doc fab = []"
proof -
  have "(\<lambda>el. if \<not> isOnScreenAndVisible doc el then False
              else if hasFabToken doc el then True else isFabLikeFloatingControl doc el)
        = (\<lambda>el. isOnScreenAndVisible doc el \<and> (hasFabToken doc el \<or> isFabLikeFloatingControl doc el))"
    by auto
  then show ?thesis
    by (simp add: collectFabSelectors_def Let_def dedupeTopLevelElements_empty regionMatches_def)
qed

lemma regionCandidates_simps:
  "regionCandidates sidebar = [''#sidebar-header'', ''#sidebar-center'', ''#sidebar-footer'',
         ''.component.reverb.sidebar'']"
  "regionCandidates contents = [''#panel-header'', ''#panel-center'', ''#panel-footer'', ''#contents-header'',
         ''#contents-center'', ''#contents-footer'', ''.component.reverb.threads'',
         ''.component.reverb.messages'']"
  "regionCandidates drawer = [''#drawer-container'', ''#drawer-header'', ''#drawer-center'', ''#drawer-footer'']"
  by (simp_all add: regionCandidates_def definitions_def)

lemma collectRegionSelectors_matches:
  "k \<noteq> fab \<Longrightarrow> collectRegionSelectors doc (regionCandidates k)
     = map (buildUniqueSelector doc) (dedupeTopLevelElements doc (regionMatches doc k))"
  by (simp add: collectRegionSelectors_def Let_def regionMatches_def)

lemma collectFabSelectors_matches:
  "collectFabSelectors doc
     = map (buildUniqueSelector doc) (dedupeTopLevelElements doc (regionMatches doc fab))"
proof -
  have "(\<lambda>el. if \<not> isOnScreenAndVisible doc el then False
              else if hasFabToken doc el then True else isFabLikeFloatingControl doc el)
        = (\<lambda>el. isOnScreenAndVisible doc el \<and> (hasFabToken doc el \<or> isFabLikeFloatingControl doc el))"
    by auto
  then show ?thesis by (simp add: collectFabSelectors_def Let_def regionMatches_def)
qed

lemma regionsOf_unfold:
  "regionsOf doc =
     (if collectRegionSelectors doc (regionCandidates sidebar) \<noteq> []
      then [\<lparr>key = sidebar, title = ''Sidebar'', selectors = collectRegionSelectors doc (regionCandidates sidebar)\<rparr>] else [])
     @ (if collectRegionSelectors doc (regionCandidates contents) \<noteq> []
      then [\<lparr>key = contents, title = ''Contents'', selectors = collectRegionSelectors doc (regionCandidates contents)\<rparr>] else [])
     @ (if collectRegionSelectors doc (regionCandidates drawer) \<noteq> []
      then [\<lparr>key = drawer, title = ''Drawer'', selectors = collectRegionSelectors doc (regionCandidates drawer)\<rparr>] else [])
     @ (if collectFabSelectors doc \<noteq> []
      then [\<lparr>key = fab, title = ''FAB'', selectors = collectFabSelectors doc\<rparr>] else [])"
  unfolding regionCandidates_simps
  by (simp add: regionsOf_def definitions_def Let_def)

lemma regionsOf_selectors:
  "region \<in> set (regionsOf doc) \<Longrightarrow>
   selectors region
     = map (buildUniqueSelector doc) (dedupeTopLevelElements doc (regionMatches doc (key region)))"
  unfolding regionsOf_unfold
  by (auto simp: collectRegionSelectors_matches collectFabSelectors_matches split: if_splits)

lemma regionsOf_keys:
  "map key (regionsOf doc) = filter (\<lambda>k. regionMatches doc k \<noteq> []) [sidebar, contents, drawer, fab]"
  and regionsOf_titles: "map title (regionsOf doc) = map regionTitle (map key (regionsOf doc))"
proof -
  have s: "collectRegionSelectors doc (regionCandidates sidebar) = [] \<longleftrightarrow> regionMatches doc sidebar = []"
    and c: "collectRegionSelectors doc (regionCandidates contents) = [] \<longleftrightarrow> regionMatches doc contents = []"
    and d: "collectRegionSelectors doc (regionCandidates drawer) = [] \<longleftrightarrow> regionMatches doc drawer = []"
    by (simp_all add: collectRegionSelectors_empty)
  note f = collectFabSelectors_empty [of doc]
  note r = regionsOf_unfold [of doc]
  show "map key (regionsOf doc) = filter (\<lambda>k. regionMatches doc k \<noteq> []) [sidebar, contents, drawer, fab]"
    unfolding r using s c d f by simp
  show "map title (regionsOf doc) = map regionTitle (map key (regionsOf doc))"
    unfolding r by (simp add: regionTitle_def)
qed

lemma regionSections_titles:
  "regionSections page options regions st = (sections, st') \<Longrightarrow>
   list_all2 (\<lambda>region s. prefix (''# '' @ title region @ '':'' @ [CHR 0x0A]) s) regions sections"
proof (induction regions arbitrary: st sections st')
  case Nil
  then show ?case by simp
next
  case (Cons region regions)
  obtain t s1 where t: "buildMyheloRegionSection page options (selectors region) st = (t, s1)"
    by (cases "buildMyheloRegionSection page options (selectors region) st")
  obtain ss s2 where b: "regionSections page options regions s1 = (ss, s2)"
    by (cases "regionSections page options regions s1")
  from Cons.prems t b have "sections = (''# '' @ title region @ '':'' @ [CHR 0x0A] @ t) # ss" by auto
  with Cons.IH [OF b] show ?case by simp
qed

text \<open>
  C9. When the region query succeeds on a detected shell, the regions are exactly those of
  sidebar, contents, drawer, fab (in this order) whose on-screen, visible matches,
  deduplicated by containment, are not zero; each carries its title and the unique
  selectors of its deduplicated matches. With no selector option and at least one region,
  the tree is the sections joined by a blank line, one section a region in that order,
  each beginning with \<^verbatim>\<open># <Title>:\<close> and a line break.
\<close>

theorem region_sections_in_detection_order:
  "(regionScan page = Inr doc \<and> hasMyheloSubLayout doc \<longrightarrow>
      map key (getMyheloActiveRegions page)
        = filter (\<lambda>k. dedupeTopLevelElements doc (regionMatches doc k) \<noteq> [])
            [sidebar, contents, drawer, fab]
      \<and> (\<forall>region \<in> set (getMyheloActiveRegions page).
            selectors region
              = map (buildUniqueSelector doc) (dedupeTopLevelElements doc (regionMatches doc (key region)))))
   \<and> map title (getMyheloActiveRegions page) = map regionTitle (map key (getMyheloActiveRegions page))
   \<and> (noSelector options \<and> getMyheloActiveRegions page \<noteq> [] \<longrightarrow>
        tree (fst (getEnhancedSnapshot page options st0))
          = joinWith [CHR 0x0A, CHR 0x0A]
              (fst (regionSections page options (getMyheloActiveRegions page) freshState))
        \<and> list_all2 (\<lambda>region s. prefix (''# '' @ title region @ '':'' @ [CHR 0x0A]) s)
            (getMyheloActiveRegions page)
            (fst (regionSections page options (getMyheloActiveRegions page) freshState)))"
proof -
  have 1: "map key (getMyheloActiveRegions page)
        = filter (\<lambda>k. dedupeTopLevelElements doc (regionMatches doc k) \<noteq> [])
            [sidebar, contents, drawer, fab]"
    if "regionScan page = Inr doc" "hasMyheloSubLayout doc"
    using that regionsOf_keys [of doc]
    by (simp add: getMyheloActiveRegions_def dedupeTopLevelElements_empty)
  have 2: "\<forall>region \<in> set (getMyheloActiveRegions page).
            selectors region
              = map (buildUniqueSelector doc) (dedupeTopLevelElements doc (regionMatches doc (key region)))"
    if "regionScan page = Inr doc" "hasMyheloSubLayout doc"
    using that regionsOf_selectors [of _ doc] by (simp add: getMyheloActiveRegions_def)
  have 3: "map title (getMyheloActiveRegions page) = map regionTitle (map key (getMyheloActiveRegions page))"
    using regionsOf_titles
    by (auto simp: getMyheloActiveRegions_def split: sum.splits)
  have 4: "tree (fst (getEnhancedSnapshot page options st0))
          = joinWith [CHR 0x0A, CHR 0x0A]
              (fst (regionSections page options (getMyheloActiveRegions page) freshState))"
    if "noSelector options" "getMyheloActiveRegions page \<noteq> []"
    using that
    by (simp add: getEnhancedSnapshot_def Let_def initial_state_fixed freshState_def
        split: prod.splits)
  have 5: "list_all2 (\<lambda>region s. prefix (''# '' @ title region @ '':'' @ [CHR 0x0A]) s)
            (getMyheloActiveRegions page)
            (fst (regionSections page options (getMyheloActiveRegions page) freshState))"
    by (rule regionSections_titles [of page options _ freshState _
          "snd (regionSections page options (getMyheloActiveRegions page) freshState)"]) simp
  show ?thesis using 1 2 3 4 5 by blast
qed

theorem region_sections_in_detection_order_witness:
  "regionScan page_shell = Inr doc_shell \<and> hasMyheloSubLayout doc_shell
   \<and> map key (getMyheloActiveRegions page_shell) = [contents, fab]
   \<and> map selectors (getMyheloActiveRegions page_shell) = [[''#contents-center''], [''#fab'']]
   \<and> noSelector defaultOptions \<and> getMyheloActiveRegions page_shell \<noteq> []
   \<and> tree (fst (getEnhancedSnapshot page_shell defaultOptions freshState))
       = ''# Contents:'' @ [CHR 0x0A] @ ''- button '' @ [CHR 0x22] @ ''Send'' @ [CHR 0x22] @ '' [ref=e1]''
         @ [CHR 0x0A, CHR 0x0A]
         @ ''# FAB:'' @ [CHR 0x0A] @ ''- button '' @ [CHR 0x22] @ ''New'' @ [CHR 0x22] @ '' [ref=e2]''"
proof -
  have h1: "regionScan page_shell = Inr doc_shell" by (simp add: page_shell_def)
  have h2: "hasMyheloSubLayout doc_shell" by code_simp
  have h3: "noSelector defaultOptions" by (simp add: noSelector_def defaultOptions_def)
  have ev: "getMyheloActiveRegions page_shell
      = [\<lparr>key = contents, title = ''Contents'', selectors = [''#contents-center'']\<rparr>,
         \<lparr>key = fab, title = ''FAB'', selectors = [''#fab'']\<rparr>]"
    by code_simp
  have h4: "getMyheloActiveRegions page_shell \<noteq> []" by (simp add: ev)
  have secs: "fst (regionSections page_shell defaultOptions (getMyheloActiveRegions page_shell) freshState)
      = [''# Contents:'' @ [CHR 0x0A] @ ''- button '' @ [CHR 0x22] @ ''Send'' @ [CHR 0x22] @ '' [ref=e1]'',
         ''# FAB:'' @ [CHR 0x0A] @ ''- button '' @ [CHR 0x22] @ ''New'' @ [CHR 0x22] @ '' [ref=e2]'']"
    by code_simp
  from region_sections_in_detection_order [of page_shell doc_shell defaultOptions freshState] h1 h2 h3 h4
  have "tree (fst (getEnhancedSnapshot page_shell defaultOptions freshState))
          = joinWith [CHR 0x0A, CHR 0x0A]
              (fst (regionSections page_shell defaultOptions (getMyheloActiveRegions page_shell) freshState))"
    by blast
  then show ?thesis using h1 h2 h3 h4 by (simp add: secs) (simp add: ev)
qed

section \<open>What the full mode makes of a line\<close>

lemma structural_not_ref:
  "r \<in> set STRUCTURAL_ROLES \<Longrightarrow> r \<notin> set INTERACTIVE_ROLES \<and> r \<notin> set CONTENT_ROLES"
  by (auto simp: STRUCTURAL_ROLES_def INTERACTIVE_ROLES_def CONTENT_ROLES_def)

lemma unnamedStructural_not_getsRef: "unnamedStructural line \<Longrightarrow> \<not> getsRef line"
  by (auto simp: unnamedStructural_def getsRef_def split: option.splits dest: structural_not_ref)

lemma processLine_shape:
  assumes "\<not> interactive options"
  shows "processLine line options st =
     (if \<not> keptFull options line then (None, st)
      else if getsRef line then
        (case matchLine line of
           None \<Rightarrow> (Some line, st)
         | Some (pre, role, name, sfx) \<Rightarrow>
             (case assignRef (toLowerCase role) name st of
                ((ref, idx), st') \<Rightarrow>
                  (Some (pre @ role @ nameText name @ refText ref idx @ sfx), st')))
      else (Some line, st))"
proof (cases "matchLine line")
  case None
  with assms show ?thesis
    by (simp add: processLine_def keptFull_def getsRef_def unnamedStructural_def)
next
  case (Some m)
  obtain pre role name sfx where m: "m = (pre, role, name, sfx)" by (cases m) auto
  have ns: "\<not> startsWith ''/'' role"
    using role_not_slash [of line pre role name sfx] Some m by simp
  show ?thesis
  proof (cases "toLowerCase role \<in> set STRUCTURAL_ROLES")
    case True
    with structural_not_ref [OF True] assms ns Some m show ?thesis
      by (simp add: processLine_def keptFull_def getsRef_def unnamedStructural_def Let_def)
  next
    case False
    with assms ns Some m show ?thesis
      by (auto simp: processLine_def keptFull_def getsRef_def unnamedStructural_def Let_def
          split: prod.splits)
  qed
qed

lemma matchLine_unfold:
  assumes "dropWhile isSpace line = CHR ''-'' # r2"
    and "takeWhile isWord (dropWhile isSpace r2) \<noteq> []"
  shows "matchLine line =
     (case matchName (dropWhile isWord (dropWhile isSpace r2)) of
        Some (nm, r5) \<Rightarrow>
          if noLineTerminator r5
          then Some (takeWhile isSpace line @ [CHR ''-''] @ takeWhile isSpace r2,
                     takeWhile isWord (dropWhile isSpace r2), Some nm, r5)
          else if noLineTerminator (dropWhile isWord (dropWhile isSpace r2))
          then Some (takeWhile isSpace line @ [CHR ''-''] @ takeWhile isSpace r2,
                     takeWhile isWord (dropWhile isSpace r2), None,
                     dropWhile isWord (dropWhile isSpace r2))
          else None
      | None \<Rightarrow>
          if noLineTerminator (dropWhile isWord (dropWhile isSpace r2))
          then Some (takeWhile isSpace line @ [CHR ''-''] @ takeWhile isSpace r2,
                     takeWhile isWord (dropWhile isSpace r2), None,
                     dropWhile isWord (dropWhile isSpace r2))
          else None)"
  unfolding matchLine_def Let_def assms(1) using assms(2) by simp

lemma matchLine_SomeD:
  assumes "matchLine line = Some (pre, role, name, sfx)"
  obtains r2 where "dropWhile isSpace line = CHR ''-'' # r2"
    and "pre = takeWhile isSpace line @ CHR ''-'' # takeWhile isSpace r2"
    and "role = takeWhile isWord (dropWhile isSpace r2)"
    and "role \<noteq> []"
    and "(name = None \<and> sfx = dropWhile isWord (dropWhile isSpace r2))
         \<or> (\<exists>nm. matchName (dropWhile isWord (dropWhile isSpace r2)) = Some (nm, sfx) \<and> name = Some nm)"
    and "noLineTerminator sfx"
proof -
  obtain d r2 where r1: "dropWhile isSpace line = d # r2"
    using assms by (cases "dropWhile isSpace line") (simp_all add: matchLine_def Let_def)
  have d: "d = CHR ''-''"
    using assms r1 by (simp add: matchLine_def Let_def split: if_splits)
  have ne: "takeWhile isWord (dropWhile isSpace r2) \<noteq> []"
    using assms r1 d by (simp add: matchLine_def Let_def split: if_splits)
  note m = assms [unfolded matchLine_unfold [OF r1 [unfolded d] ne]]
  have "pre = takeWhile isSpace line @ CHR ''-'' # takeWhile isSpace r2
        \<and> role = takeWhile isWord (dropWhile isSpace r2) \<and> noLineTerminator sfx
        \<and> ((name = None \<and> sfx = dropWhile isWord (dropWhile isSpace r2))
            \<or> (\<exists>nm. matchName (dropWhile isWord (dropWhile isSpace r2)) = Some (nm, sfx) \<and> name = Some nm))"
  proof (cases "matchName (dropWhile isWord (dropWhile isSpace r2))")
    case None
    with m show ?thesis by (simp split: if_splits)
  next
    case (Some a)
    obtain nm r5 where a: "a = (nm, r5)" by (cases a)
    from m Some a show ?thesis by (auto split: if_splits)
  qed
  with that [of r2] r1 d ne show ?thesis by simp
qed

lemma matchLine_pre:
  assumes "matchLine line = Some (pre, role, name, sfx)"
  shows "\<exists>ws2. pre = takeWhile isSpace line @ CHR ''-'' # ws2"
  by (rule matchLine_SomeD [OF assms]) blast

lemma indent_of_pre:
  assumes "matchLine line = Some (pre, role, name, sfx)"
  shows "getIndentLevel (pre @ rest) = getIndentLevel line"
proof -
  from matchLine_pre [OF assms] obtain ws2 where p: "pre = takeWhile isSpace line @ CHR ''-'' # ws2"
    by blast
  have d: "\<not> isSpace CHR ''-''" by (simp add: isSpace_def)
  have "takeWhile isSpace (takeWhile isSpace line @ CHR ''-'' # (ws2 @ rest))
      = takeWhile isSpace line @ takeWhile isSpace (CHR ''-'' # (ws2 @ rest))"
    by (rule takeWhile_append2) (auto dest: set_takeWhileD)
  with d have "takeWhile isSpace (pre @ rest) = takeWhile isSpace line"
    by (simp add: p)
  then show ?thesis by (simp add: getIndentLevel_def)
qed

lemma hasRefMark_refText: "hasRefMark (a @ refText ref idx @ b)"
proof -
  have e: "a @ refText ref idx @ b
      = (a @ '' '') @ ''[ref='' @ (ref @ '']'' @ (if idx > 0 then '' [nth='' @ showNat idx @ '']'' else []) @ b)"
    by (simp add: refText_def)
  show ?thesis unfolding hasRefMark_def e by (rule includesStr_append)
qed

lemma matchName_parts:
  assumes "matchName s = Some (nm, rest)"
  shows "set nm \<subseteq> set s \<and> set rest \<subseteq> set s"
proof -
  from assms obtain r' where r: "dropWhile isSpace s = CHR 0x22 # r'"
    and nm: "nm = takeWhile (\<lambda>c. c \<noteq> CHR 0x22) r'"
    and rest: "\<exists>q. dropWhile (\<lambda>c. c \<noteq> CHR 0x22) r' = q # rest"
    by (auto simp: matchName_def Let_def split: list.splits if_splits)
  have "set r' \<subseteq> set s" using set_dropWhileD [of _ isSpace s] r by auto
  moreover have "set nm \<subseteq> set r'" unfolding nm by (auto dest: set_takeWhileD)
  moreover have "set rest \<subseteq> set r'"
    using set_dropWhileD [of _ "\<lambda>c. c \<noteq> CHR 0x22" r'] rest by auto
  ultimately show ?thesis by blast
qed

lemma matchLine_parts:
  assumes "matchLine line = Some (pre, role, name, sfx)"
  shows "set pre \<subseteq> set line" "set role \<subseteq> set line" "set sfx \<subseteq> set line"
    "\<And>n. name = Some n \<Longrightarrow> set n \<subseteq> set line"
proof -
  obtain r2 where r1: "dropWhile isSpace line = CHR ''-'' # r2"
    and pre: "pre = takeWhile isSpace line @ CHR ''-'' # takeWhile isSpace r2"
    and role: "role = takeWhile isWord (dropWhile isSpace r2)"
    and cases: "(name = None \<and> sfx = dropWhile isWord (dropWhile isSpace r2))
         \<or> (\<exists>nm. matchName (dropWhile isWord (dropWhile isSpace r2)) = Some (nm, sfx) \<and> name = Some nm)"
    by (rule matchLine_SomeD [OF assms]) blast
  define r3 where "r3 = dropWhile isSpace r2"
  define r4 where "r4 = dropWhile isWord r3"
  have "set (dropWhile isSpace line) \<subseteq> set line" by (auto dest: set_dropWhileD)
  then have s2: "set r2 \<subseteq> set line" and dash: "CHR ''-'' \<in> set line" unfolding r1 by auto
  have s3: "set r3 \<subseteq> set r2" unfolding r3_def by (auto dest: set_dropWhileD)
  have s4: "set r4 \<subseteq> set r3" unfolding r4_def by (auto dest: set_dropWhileD)
  from s2 s3 s4 have s4': "set r4 \<subseteq> set line" by blast
  show "set pre \<subseteq> set line"
    unfolding pre using s2 dash by (auto dest: set_takeWhileD)
  have "set role \<subseteq> set r3" unfolding role r3_def by (auto dest: set_takeWhileD)
  with s2 s3 show "set role \<subseteq> set line" by blast
  from cases have c: "(name = None \<and> sfx = r4) \<or> (\<exists>nm. matchName r4 = Some (nm, sfx) \<and> name = Some nm)"
    by (simp add: r3_def r4_def)
  show "set sfx \<subseteq> set line"
  proof (rule disjE [OF c])
    assume "name = None \<and> sfx = r4"
    with s4' show ?thesis by simp
  next
    assume "\<exists>nm. matchName r4 = Some (nm, sfx) \<and> name = Some nm"
    then obtain nm where "matchName r4 = Some (nm, sfx)" by blast
    from matchName_parts [OF this] s4' show ?thesis by blast
  qed
  show "set n \<subseteq> set line" if "name = Some n" for n
  proof -
    from c that have "matchName r4 = Some (n, sfx)" by auto
    from matchName_parts [OF this] s4' show ?thesis by blast
  qed
qed

lemma refText_noNL: "CHR 0x0A \<notin> set ref \<Longrightarrow> CHR 0x0A \<notin> set (refText ref idx)"
  by (simp add: refText_def showNat_noNL)

lemma nameText_noNL: "(\<And>n. name = Some n \<Longrightarrow> CHR 0x0A \<notin> set n) \<Longrightarrow> CHR 0x0A \<notin> set (nameText name)"
  by (simp add: nameText_def split: option.splits)

lemma refId_noNL: "CHR 0x0A \<notin> set (refId k)"
  by (simp add: refId_def showNat_noNL)

text \<open>One step of the full-mode loop, seen from outside.\<close>

lemma processLine_view:
  assumes ni: "\<not> interactive options"
    and p: "processLine line options st = (res, st')"
  shows "(res = None) = (\<not> keptFull options line)"
    and "\<And>out. res = Some out \<Longrightarrow> lineView out = outView line"
    and "\<And>out. res = Some out \<Longrightarrow> CHR 0x0A \<notin> set line \<Longrightarrow> CHR 0x0A \<notin> set out"
    and "\<And>out. res = Some out \<Longrightarrow> \<not> getsRef line \<Longrightarrow> out = line \<and> st' = st"
    and "\<not> keptFull options line \<Longrightarrow> st' = st"
proof -
  note sh = processLine_shape [OF ni, of line st]
  show "(res = None) = (\<not> keptFull options line)"
    using p unfolding sh by (auto split: if_splits option.splits prod.splits)
  show "\<And>out. res = Some out \<Longrightarrow> \<not> getsRef line \<Longrightarrow> out = line \<and> st' = st"
    using p unfolding sh by (auto split: if_splits)
  show "\<not> keptFull options line \<Longrightarrow> st' = st"
    using p unfolding sh by (auto split: if_splits)
  {
    fix out assume out: "res = Some out"
    show "lineView out = outView line"
    proof (cases "getsRef line")
      case False
      with p out show ?thesis unfolding sh by (auto simp: outView_def split: if_splits)
    next
      case True
      then obtain pre role name sfx where m: "matchLine line = Some (pre, role, name, sfx)"
        by (auto simp: getsRef_def split: option.splits)
      obtain ref idx s1 where a: "assignRef (toLowerCase role) name st = ((ref, idx), s1)"
        by (cases "assignRef (toLowerCase role) name st") auto
      from p out True m a have o: "out = pre @ role @ nameText name @ refText ref idx @ sfx"
        unfolding sh by (auto split: if_splits)
      have "hasRefMark out"
        using hasRefMark_refText [of "pre @ role @ nameText name" ref idx sfx] by (simp add: o)
      moreover have "getIndentLevel out = getIndentLevel line"
        unfolding o by (rule indent_of_pre [OF m])
      ultimately show ?thesis
        using True by (simp add: lineView_def outView_def keepAlways_def hasRefMark_def)
    qed
    show "CHR 0x0A \<notin> set out" if nl: "CHR 0x0A \<notin> set line"
    proof (cases "getsRef line")
      case False
      with p out nl show ?thesis unfolding sh by (auto split: if_splits)
    next
      case True
      then obtain pre role name sfx where m: "matchLine line = Some (pre, role, name, sfx)"
        by (auto simp: getsRef_def split: option.splits)
      obtain ref idx s1 where a: "assignRef (toLowerCase role) name st = ((ref, idx), s1)"
        by (cases "assignRef (toLowerCase role) name st") auto
      from p out True m a have o: "out = pre @ role @ nameText name @ refText ref idx @ sfx"
        unfolding sh by (auto split: if_splits)
      have "ref = refId (Suc (refCounter st))" by (rule assignRef_effect(1) [OF a])
      then have "CHR 0x0A \<notin> set (refText ref idx)" by (simp add: refText_noNL refId_noNL)
      moreover have "CHR 0x0A \<notin> set (nameText name)"
        using matchLine_parts(4) [OF m] nl by (intro nameText_noNL) auto
      ultimately show ?thesis
        unfolding o using matchLine_parts(1,2,3) [OF m] nl by auto
    qed
  }
qed

section \<open>The compact pass on views of lines\<close>

lemma processAriaTree_outputLines:
  "fst (processAriaTree t options fin st) =
     (if interactive options \<and> joinNL (outputLines t options st) = []
      then ''(no interactive elements)'' else joinNL (outputLines t options st))"
  by (simp add: processAriaTree_def outputLines_def compactTree_def Let_def split: prod.splits)

lemma collectLines_full_view:
  assumes ni: "\<not> interactive options"
  shows "collectLines (\<lambda>l. processLine l options) ls st = (outs, st') \<Longrightarrow>
     map lineView outs = map outView (filter (keptFull options) ls)
     \<and> ((\<forall>l \<in> set ls. CHR 0x0A \<notin> set l) \<longrightarrow> (\<forall>out \<in> set outs. CHR 0x0A \<notin> set out))"
proof (induction ls arbitrary: st outs st')
  case Nil
  then show ?case by simp
next
  case (Cons l ls)
  obtain res s1 where p: "processLine l options st = (res, s1)" by (cases "processLine l options st")
  obtain os s2 where c: "collectLines (\<lambda>l. processLine l options) ls s1 = (os, s2)"
    by (cases "collectLines (\<lambda>l. processLine l options) ls s1")
  note ih = Cons.IH [OF c]
  note v = processLine_view [OF ni p]
  show ?case
  proof (cases res)
    case None
    with Cons.prems p c have "outs = os" by simp
    moreover from None v(1) have "\<not> keptFull options l" by simp
    ultimately show ?thesis using ih by simp
  next
    case (Some out)
    with Cons.prems p c have o: "outs = out # os" by simp
    from Some v(1) have k: "keptFull options l" by simp
    from v(2) [OF Some] v(3) [OF Some] k ih show ?thesis by (simp add: o)
  qed
qed

lemma hasRelevantChildren_view: "hasRelevantChildren n ls = hasRelevantView n (map lineView ls)"
  by (induction ls) (simp_all add: lineView_def hasRefMark_def)

lemma compactLines_keepAlways:
  "compactLines (line # rest) =
     (if keepAlways line \<or> hasRelevantChildren (getIndentLevel line) rest
      then line # compactLines rest else compactLines rest)"
  by (simp add: keepAlways_def)

lemma length_compactLines: "length (compactLines ls) = compactCount (map lineView ls)"
proof (induction ls)
  case Nil
  then show ?case by simp
next
  case (Cons l ls)
  then show ?case
    unfolding compactLines_keepAlways
    by (simp add: hasRelevantChildren_view) (simp add: lineView_def)
qed

lemma subseq_compactLines: "subseq (compactLines ls) ls"
proof (induction ls)
  case Nil
  then show ?case by simp
next
  case (Cons l ls)
  then show ?case unfolding compactLines_keepAlways by auto
qed

lemma compactLines_blank: "compactLines [[]] = []"
  by (simp add: endsWith_def)

lemma compactLines_split_join:
  assumes "\<forall>l \<in> set ls. CHR 0x0A \<notin> set l"
  shows "compactLines (splitNL (joinNL ls)) = compactLines ls"
proof (cases "ls = []")
  case True
  then show ?thesis by (simp add: joinNL_def compactLines_blank)
next
  case False
  with assms show ?thesis by (simp add: splitNL_joinNL)
qed

lemma statsLines_joinNL:
  assumes "\<forall>l \<in> set ls. CHR 0x0A \<notin> set l"
  shows "statsLines (joinNL ls) = max 1 (length ls)"
proof (cases "ls = []")
  case True
  then show ?thesis by (simp add: joinNL_def statsLines_def)
next
  case False
  then have "1 \<le> length ls" by (cases ls) auto
  with assms False show ?thesis by (simp add: statsLines_def splitNL_joinNL)
qed

lemma hasRelevantView_mono:
  assumes "int n \<le> d1" "d1 \<le> d2"
  shows "hasRelevantView n (filter (\<lambda>v. int (fst v) \<le> d1) vs)
           \<Longrightarrow> hasRelevantView n (filter (\<lambda>v. int (fst v) \<le> d2) vs)"
proof (induction vs)
  case Nil
  then show ?case by simp
next
  case (Cons v vs)
  show ?case
  proof (cases "int (fst v) \<le> d1")
    case True
    with assms Cons show ?thesis by (auto split: if_splits)
  next
    case False
    with assms have "\<not> fst v \<le> n" by linarith
    with False Cons show ?thesis by auto
  qed
qed

lemma compactCount_Cons_le: "compactCount vs \<le> compactCount (v # vs)"
  by simp

lemma compactCount_mono:
  assumes "d1 \<le> d2"
  shows "compactCount (filter (\<lambda>v. int (fst v) \<le> d1) vs)
           \<le> compactCount (filter (\<lambda>v. int (fst v) \<le> d2) vs)"
proof (induction vs)
  case Nil
  then show ?case by simp
next
  case (Cons v vs)
  show ?case
  proof (cases "int (fst v) \<le> d1")
    case True
    with assms have 2: "int (fst v) \<le> d2" by simp
    from hasRelevantView_mono [OF True assms, of vs] Cons True 2 show ?thesis by auto
  next
    case False
    show ?thesis
    proof (cases "int (fst v) \<le> d2")
      case True
      have "compactCount (filter (\<lambda>v. int (fst v) \<le> d2) vs)
              \<le> compactCount (v # filter (\<lambda>v. int (fst v) \<le> d2) vs)"
        by (rule compactCount_Cons_le)
      with Cons False True show ?thesis by simp
    next
      case F2: False
      with Cons False show ?thesis by simp
    qed
  qed
qed

lemma fst_outView: "fst (outView l) = getIndentLevel l"
  by (simp add: outView_def lineView_def)

lemma keptFull_depth:
  "filter (keptFull (options\<lparr>maxDepth := Some d\<rparr>)) ls
     = filter (\<lambda>l. int (getIndentLevel l) \<le> d)
         (filter (\<lambda>l. \<not> (compact options \<and> unnamedStructural l)) ls)"
  by (induction ls) (auto simp: keptFull_def tooDeep_def)

lemma outView_depth:
  "map outView (filter (keptFull (options\<lparr>maxDepth := Some d\<rparr>)) ls)
     = filter (\<lambda>v. int (fst v) \<le> d)
         (map outView (filter (\<lambda>l. \<not> (compact options \<and> unnamedStructural l)) ls))"
  unfolding keptFull_depth by (simp add: filter_map comp_def fst_outView)

section \<open>Depth limit (C6)\<close>

lemma interactiveLine_options: "interactiveLine l options st = interactiveLine l options' st"
  by (simp add: interactiveLine_def)

lemma outputLines_interactive:
  "interactive options \<Longrightarrow> interactive options' \<Longrightarrow>
   outputLines t options st = outputLines t options' st"
proof -
  have "(\<lambda>l. interactiveLine l options) = (\<lambda>l. interactiveLine l options')"
    by (intro ext) (simp add: interactiveLine_def)
  then show "interactive options \<Longrightarrow> interactive options' \<Longrightarrow>
     outputLines t options st = outputLines t options' st"
    by (simp add: outputLines_def)
qed

lemma subseq_set: "subseq xs ys \<Longrightarrow> set xs \<subseteq> set ys"
  by (auto elim: list_emb_set)

lemma length_filter_mono:
  "(\<And>x. P x \<Longrightarrow> Q x) \<Longrightarrow> length (filter P xs) \<le> length (filter Q xs)"
  by (induction xs) auto

lemma outputLines_full:
  assumes ni: "\<not> interactive options"
  shows "length (outputLines t options st)
           = (if compact options
              then compactCount (map outView (filter (keptFull options) (splitNL t)))
              else length (filter (keptFull options) (splitNL t)))"
    and "\<forall>l \<in> set (outputLines t options st). CHR 0x0A \<notin> set l"
proof -
  obtain outs s1 where c: "collectLines (\<lambda>l. processLine l options) (splitNL t) st = (outs, s1)"
    by (cases "collectLines (\<lambda>l. processLine l options) (splitNL t) st")
  from collectLines_full_view [OF ni c]
  have v: "map lineView outs = map outView (filter (keptFull options) (splitNL t))"
    and nl: "\<forall>out \<in> set outs. CHR 0x0A \<notin> set out"
    by (auto dest: splitNL_noNL)
  from v have len: "length outs = length (filter (keptFull options) (splitNL t))"
    by (metis length_map)
  have o: "outputLines t options st = (if compact options then compactLines outs else outs)"
    using ni c nl by (simp add: outputLines_def compactLines_split_join)
  show "length (outputLines t options st)
           = (if compact options
              then compactCount (map outView (filter (keptFull options) (splitNL t)))
              else length (filter (keptFull options) (splitNL t)))"
    unfolding o using v len by (simp add: length_compactLines)
  have "set (compactLines outs) \<subseteq> set outs"
    by (rule subseq_set [OF subseq_compactLines])
  with nl show "\<forall>l \<in> set (outputLines t options st). CHR 0x0A \<notin> set l"
    unfolding o by auto
qed

text \<open>
  C6. For a given tree, state and remaining options, a larger \<^verbatim>\<open>maxDepth\<close> never gives fewer
  lines: neither in the array of lines that the pipeline joins (after the compact pass when
  \<^verbatim>\<open>compact\<close> is set), nor in the line count of the text.
\<close>

theorem maxDepth_monotone:
  assumes "d1 \<le> d2"
  shows "length (outputLines t (options\<lparr>maxDepth := Some d1\<rparr>) st)
           \<le> length (outputLines t (options\<lparr>maxDepth := Some d2\<rparr>) st)
         \<and> statsLines (fst (processAriaTree t (options\<lparr>maxDepth := Some d1\<rparr>) fin st))
           \<le> statsLines (fst (processAriaTree t (options\<lparr>maxDepth := Some d2\<rparr>) fin st))"
proof (cases "interactive options")
  case True
  then have "outputLines t (options\<lparr>maxDepth := Some d1\<rparr>) st
               = outputLines t (options\<lparr>maxDepth := Some d2\<rparr>) st"
    by (intro outputLines_interactive) simp_all
  then show ?thesis by (simp add: processAriaTree_outputLines)
next
  case False
  let ?o1 = "options\<lparr>maxDepth := Some d1\<rparr>" and ?o2 = "options\<lparr>maxDepth := Some d2\<rparr>"
  let ?L1 = "outputLines t ?o1 st" and ?L2 = "outputLines t ?o2 st"
  from False have ni: "\<not> interactive ?o1" "\<not> interactive ?o2" by simp_all
  have len: "length ?L1 \<le> length ?L2"
  proof (cases "compact options")
    case True
    then show ?thesis
      unfolding outputLines_full(1) [OF ni(1)] outputLines_full(1) [OF ni(2)] outView_depth
      using compactCount_mono [OF assms] by simp
  next
    case F: False
    have "length (filter (keptFull ?o1) (splitNL t)) \<le> length (filter (keptFull ?o2) (splitNL t))"
      using assms by (intro length_filter_mono) (auto simp: keptFull_def tooDeep_def)
    with F show ?thesis
      unfolding outputLines_full(1) [OF ni(1)] outputLines_full(1) [OF ni(2)] by simp
  qed
  have "statsLines (joinNL ?L1) = max 1 (length ?L1)" "statsLines (joinNL ?L2) = max 1 (length ?L2)"
    using outputLines_full(2) [OF ni(1)] outputLines_full(2) [OF ni(2)]
    by (simp_all add: statsLines_joinNL)
  with len False show ?thesis by (simp add: processAriaTree_outputLines)
qed

theorem maxDepth_monotone_witness:
  "(0::int) \<le> 2
   \<and> length (outputLines tree_nested (defaultOptions\<lparr>compact := True, maxDepth := Some 0\<rparr>) freshState) = 0
   \<and> length (outputLines tree_nested (defaultOptions\<lparr>compact := True, maxDepth := Some 2\<rparr>) freshState) = 2
   \<and> statsLines (fst (processAriaTree tree_nested
                       (defaultOptions\<lparr>compact := True, maxDepth := Some 0\<rparr>) True freshState))
     \<le> statsLines (fst (processAriaTree tree_nested
                       (defaultOptions\<lparr>compact := True, maxDepth := Some 2\<rparr>) True freshState))"
proof -
  have h: "(0::int) \<le> 2" by simp
  have a: "length (outputLines tree_nested (defaultOptions\<lparr>compact := True, maxDepth := Some 0\<rparr>) freshState) = 0"
    by code_simp
  have b: "length (outputLines tree_nested (defaultOptions\<lparr>compact := True, maxDepth := Some 2\<rparr>) freshState) = 2"
    by code_simp
  from maxDepth_monotone [OF h, of tree_nested "defaultOptions\<lparr>compact := True\<rparr>" freshState True]
  show ?thesis using a b by simp
qed

section \<open>Compact mode against full mode in the tree pipeline\<close>

lemma processLine_compact_irrelevant:
  assumes "\<not> interactive options" "keptFull (options\<lparr>compact := True\<rparr>) l"
  shows "processLine l (options\<lparr>compact := True\<rparr>) st = processLine l (options\<lparr>compact := False\<rparr>) st"
proof -
  from assms(2) have "keptFull (options\<lparr>compact := False\<rparr>) l"
    by (simp add: keptFull_def tooDeep_def)
  with assms show ?thesis
    by (simp add: processLine_shape)
qed

lemma collectLines_compact_subseq:
  assumes ni: "\<not> interactive options"
  shows "collectLines (\<lambda>l. processLine l (options\<lparr>compact := True\<rparr>)) ls st = (oc, sc) \<Longrightarrow>
         collectLines (\<lambda>l. processLine l (options\<lparr>compact := False\<rparr>)) ls st = (on, sn) \<Longrightarrow>
         subseq oc on \<and> sc = sn"
proof (induction ls arbitrary: st oc sc on sn)
  case Nil
  then show ?case by simp
next
  case (Cons l ls)
  let ?oT = "options\<lparr>compact := True\<rparr>" and ?oF = "options\<lparr>compact := False\<rparr>"
  have niT: "\<not> interactive ?oT" and niF: "\<not> interactive ?oF" using ni by simp_all
  obtain rT sT where pT: "processLine l ?oT st = (rT, sT)" by (cases "processLine l ?oT st")
  obtain rF sF where pF: "processLine l ?oF st = (rF, sF)" by (cases "processLine l ?oF st")
  obtain oc' sc' where cT: "collectLines (\<lambda>l. processLine l ?oT) ls sT = (oc', sc')"
    by (cases "collectLines (\<lambda>l. processLine l ?oT) ls sT")
  obtain on' sn' where cF: "collectLines (\<lambda>l. processLine l ?oF) ls sF = (on', sn')"
    by (cases "collectLines (\<lambda>l. processLine l ?oF) ls sF")
  show ?case
  proof (cases "keptFull ?oT l")
    case True
    from processLine_compact_irrelevant [OF ni True, of st] pT pF
    have same: "rT = rF" "sT = sF" by simp_all
    from Cons.IH [OF cT cF [folded same(2)]] have ih: "subseq oc' on'" "sc' = sn'" by simp_all
    from Cons.prems pT pF cT cF same ih show ?thesis
      by (cases rF) auto
  next
    case False
    from processLine_view(1) [OF niT pT] False have rT: "rT = None" by simp
    from processLine_view(5) [OF niT pT] False have sT: "sT = st" by simp
    show ?thesis
    proof (cases "keptFull ?oF l")
      case True
      with False have us: "unnamedStructural l" by (simp add: keptFull_def tooDeep_def)
      from processLine_view(1) [OF niF pF] True obtain out where rF: "rF = Some out" by auto
      from processLine_view(4) [OF niF pF rF] unnamedStructural_not_getsRef [OF us]
      have sF: "sF = st" by simp
      from Cons.IH [OF cT [unfolded sT] cF [unfolded sF]] have ih: "subseq oc' on'" "sc' = sn'"
        by simp_all
      from Cons.prems pT pF cT cF rT rF ih show ?thesis by auto
    next
      case F2: False
      from processLine_view(1) [OF niF pF] F2 have rF: "rF = None" by simp
      from processLine_view(5) [OF niF pF] F2 have sF: "sF = st" by simp
      from Cons.IH [OF cT [unfolded sT] cF [unfolded sF]] have ih: "subseq oc' on'" "sc' = sn'"
        by simp_all
      from Cons.prems pT pF cT cF rT rF ih show ?thesis by auto
    qed
  qed
qed

lemma outputLines_compact_subseq:
  "subseq (outputLines t (options\<lparr>compact := True\<rparr>) st) (outputLines t (options\<lparr>compact := False\<rparr>) st)"
proof (cases "interactive options")
  case True
  then have "outputLines t (options\<lparr>compact := True\<rparr>) st = outputLines t (options\<lparr>compact := False\<rparr>) st"
    by (intro outputLines_interactive) simp_all
  then show ?thesis by simp
next
  case False
  let ?oT = "options\<lparr>compact := True\<rparr>" and ?oF = "options\<lparr>compact := False\<rparr>"
  have niT: "\<not> interactive ?oT" using False by simp
  obtain oc sc where cT: "collectLines (\<lambda>l. processLine l ?oT) (splitNL t) st = (oc, sc)"
    by (cases "collectLines (\<lambda>l. processLine l ?oT) (splitNL t) st")
  obtain on sn where cF: "collectLines (\<lambda>l. processLine l ?oF) (splitNL t) st = (on, sn)"
    by (cases "collectLines (\<lambda>l. processLine l ?oF) (splitNL t) st")
  from collectLines_compact_subseq [OF False cT cF] have s: "subseq oc on" by simp
  from collectLines_full_view [OF niT cT] have "\<forall>out \<in> set oc. CHR 0x0A \<notin> set out"
    by (auto dest: splitNL_noNL)
  then have "outputLines t ?oT st = compactLines oc"
    using False cT by (simp add: outputLines_def compactLines_split_join)
  moreover have "outputLines t ?oF st = on" using False cF by (simp add: outputLines_def)
  moreover have "subseq (compactLines oc) on"
    using subseq_compactLines [of oc] s by (rule subseq_order.trans)
  ultimately show ?thesis by simp
qed

text \<open>
  In the tree pipeline, for a given tree, state and remaining options, the text of compact
  mode is no longer than the text without it, in characters and in lines: the lines of
  compact mode are a subsequence of the lines without it, each line unchanged.
\<close>

lemma processAriaTree_compact_not_longer:
  "statsChars (fst (processAriaTree t (options\<lparr>compact := True\<rparr>) fin st))
     \<le> statsChars (fst (processAriaTree t (options\<lparr>compact := False\<rparr>) fin st))
   \<and> statsLines (fst (processAriaTree t (options\<lparr>compact := True\<rparr>) fin st))
     \<le> statsLines (fst (processAriaTree t (options\<lparr>compact := False\<rparr>) fin st))
   \<and> subseq (outputLines t (options\<lparr>compact := True\<rparr>) st)
        (outputLines t (options\<lparr>compact := False\<rparr>) st)"
proof (cases "interactive options")
  case True
  then have "outputLines t (options\<lparr>compact := True\<rparr>) st = outputLines t (options\<lparr>compact := False\<rparr>) st"
    by (intro outputLines_interactive) simp_all
  then show ?thesis by (simp add: processAriaTree_outputLines)
next
  case False
  let ?LT = "outputLines t (options\<lparr>compact := True\<rparr>) st"
  let ?LF = "outputLines t (options\<lparr>compact := False\<rparr>) st"
  have s: "subseq ?LT ?LF" by (rule outputLines_compact_subseq)
  have ni: "\<not> interactive (options\<lparr>compact := True\<rparr>)" "\<not> interactive (options\<lparr>compact := False\<rparr>)"
    using False by simp_all
  have chars: "length (joinNL ?LT) \<le> length (joinNL ?LF)" by (rule length_joinNL_subseq [OF s])
  have "length ?LT \<le> length ?LF" using s by (rule list_emb_length)
  moreover have "statsLines (joinNL ?LT) = max 1 (length ?LT)" "statsLines (joinNL ?LF) = max 1 (length ?LF)"
    using outputLines_full(2) [OF ni(1)] outputLines_full(2) [OF ni(2)]
    by (simp_all add: statsLines_joinNL)
  ultimately have "statsLines (joinNL ?LT) \<le> statsLines (joinNL ?LF)" by simp
  with chars s False show ?thesis by (simp add: processAriaTree_outputLines statsChars_def)
qed

section \<open>Interactive mode against full mode (C4)\<close>

lemma subseq_into_compactLines:
  "subseq A ls \<Longrightarrow> \<forall>a \<in> set A. hasRefMark a \<Longrightarrow> subseq A (compactLines ls)"
proof (induction ls arbitrary: A)
  case Nil
  then show ?case by simp
next
  case (Cons l ls)
  show ?case
  proof (cases A)
    case Nil
    then show ?thesis by simp
  next
    case (Cons a A')
    show ?thesis
    proof (cases "a = l")
      case True
      with Cons Cons.prems have "subseq A' ls" "\<forall>a \<in> set A'. hasRefMark a" "hasRefMark l"
        by simp_all
      with Cons.IH [of A'] True Cons show ?thesis
        unfolding compactLines_keepAlways by (simp add: keepAlways_def hasRefMark_def)
    next
      case False
      with Cons Cons.prems have "subseq A ls" by simp
      from Cons.IH [OF this Cons.prems(2)] show ?thesis
        unfolding compactLines_keepAlways by auto
    qed
  qed
qed

lemma interactive_not_structural:
  "r \<in> set INTERACTIVE_ROLES \<Longrightarrow> r \<notin> set STRUCTURAL_ROLES"
  using structural_not_ref by blast

lemma assignRef_annotation:
  assumes "assignRef r n st = ((ref, idx), st')"
  shows "isAnnotation (refText ref idx)"
  unfolding isAnnotation_def using assignRef_effect(1) [OF assms] by blast

lemma interactiveLine_cases:
  assumes "interactiveLine l options st = (res, st')"
  shows "(res = None \<and> (matchLine l = None
            \<or> (\<exists>pre role name sfx. matchLine l = Some (pre, role, name, sfx)
                  \<and> toLowerCase role \<notin> set INTERACTIVE_ROLES)))
         \<or> (\<exists>pre role name sfx a. matchLine l = Some (pre, role, name, sfx)
               \<and> toLowerCase role \<in> set INTERACTIVE_ROLES \<and> isAnnotation a
               \<and> res = Some (''- '' @ role @ nameText name @ a
                    @ (if sfx \<noteq> [] \<and> includesStr ''['' sfx then sfx else [])))"
proof (cases "matchLine l")
  case None
  with assms show ?thesis by (simp add: interactiveLine_def)
next
  case (Some m)
  obtain pre role name sfx where m: "m = (pre, role, name, sfx)" by (cases m) auto
  show ?thesis
  proof (cases "toLowerCase role \<in> set INTERACTIVE_ROLES")
    case False
    with assms Some m show ?thesis by (simp add: interactiveLine_def Let_def)
  next
    case True
    obtain ref idx s1 where a: "assignRef (toLowerCase role) name st = ((ref, idx), s1)"
      by (cases "assignRef (toLowerCase role) name st") auto
    from assms Some m True a
    have "res = Some (''- '' @ role @ nameText name @ refText ref idx
                    @ (if sfx \<noteq> [] \<and> includesStr ''['' sfx then sfx else []))"
      by (simp add: interactiveLine_def Let_def)
    with Some m True assignRef_annotation [OF a] show ?thesis by blast
  qed
qed

lemma processLine_interactive_role:
  assumes ni: "\<not> interactive options" and nd: "maxDepth options = None"
    and m: "matchLine l = Some (pre, role, name, sfx)"
    and r: "toLowerCase role \<in> set INTERACTIVE_ROLES"
    and p: "processLine l options st = (res, st')"
  shows "\<exists>a. isAnnotation a \<and> res = Some (pre @ role @ nameText name @ a @ sfx)"
proof -
  have k: "keptFull options l"
    using nd m interactive_not_structural [OF r]
    by (simp add: keptFull_def tooDeep_def unnamedStructural_def)
  have g: "getsRef l" using m r by (simp add: getsRef_def)
  obtain ref idx s1 where a: "assignRef (toLowerCase role) name st = ((ref, idx), s1)"
    by (cases "assignRef (toLowerCase role) name st") auto
  from p have "res = Some (pre @ role @ nameText name @ refText ref idx @ sfx)"
    unfolding processLine_shape [OF ni] using k g m a by simp
  with assignRef_annotation [OF a] show ?thesis by blast
qed

lemma collectLines_correspond:
  assumes ni: "\<not> interactive oF" and nd: "maxDepth oF = None"
  shows "collectLines (\<lambda>l. interactiveLine l oI) ls sI = (I, sI') \<Longrightarrow>
         collectLines (\<lambda>l. processLine l oF) ls sF = (F, sF') \<Longrightarrow>
         \<exists>FI. subseq FI F \<and> list_all2 corresponds I FI \<and> (\<forall>f \<in> set FI. hasRefMark f)"
proof (induction ls arbitrary: sI I sI' sF F sF')
  case Nil
  then show ?case by simp
next
  case (Cons l ls)
  obtain rI s1 where pI: "interactiveLine l oI sI = (rI, s1)" by (cases "interactiveLine l oI sI")
  obtain rF s2 where pF: "processLine l oF sF = (rF, s2)" by (cases "processLine l oF sF")
  obtain I' s1' where cI: "collectLines (\<lambda>l. interactiveLine l oI) ls s1 = (I', s1')"
    by (cases "collectLines (\<lambda>l. interactiveLine l oI) ls s1")
  obtain F' s2' where cF: "collectLines (\<lambda>l. processLine l oF) ls s2 = (F', s2')"
    by (cases "collectLines (\<lambda>l. processLine l oF) ls s2")
  from Cons.IH [OF cI cF] obtain FI where
    ih: "subseq FI F'" "list_all2 corresponds I' FI" "\<forall>f \<in> set FI. hasRefMark f" by blast
  have F: "F = (case rF of None \<Rightarrow> F' | Some out \<Rightarrow> out # F')"
    using Cons.prems(2) pF cF by (cases rF) auto
  have I: "I = (case rI of None \<Rightarrow> I' | Some out \<Rightarrow> out # I')"
    using Cons.prems(1) pI cI by (cases rI) auto
  show ?case
  proof (cases rI)
    case None
    with I have "I = I'" by simp
    moreover have "subseq FI F" using ih(1) F by (cases rF) auto
    ultimately show ?thesis using ih by blast
  next
    case (Some il)
    with interactiveLine_cases [OF pI] obtain pre role name sfx a where
      m: "matchLine l = Some (pre, role, name, sfx)"
      and r: "toLowerCase role \<in> set INTERACTIVE_ROLES"
      and a: "isAnnotation a"
      and rI: "rI = Some (''- '' @ role @ nameText name @ a
                    @ (if sfx \<noteq> [] \<and> includesStr ''['' sfx then sfx else []))"
      by auto
    from processLine_interactive_role [OF ni nd m r pF] obtain a' where
      a': "isAnnotation a'" and rF: "rF = Some (pre @ role @ nameText name @ a' @ sfx)" by blast
    let ?il = "''- '' @ role @ nameText name @ a
                    @ (if sfx \<noteq> [] \<and> includesStr ''['' sfx then sfx else [])"
    let ?fl = "pre @ role @ nameText name @ a' @ sfx"
    have c: "corresponds ?il ?fl"
      unfolding corresponds_def using m r a a' by blast
    from a' obtain k n where "a' = refText (refId k) n" by (auto simp: isAnnotation_def)
    then have h: "hasRefMark ?fl"
      using hasRefMark_refText [of "pre @ role @ nameText name" "refId k" n sfx] by simp
    have "subseq (?fl # FI) F" using ih(1) F rF by simp
    moreover have "list_all2 corresponds I (?fl # FI)" using I rI c ih(2) by simp
    moreover have "\<forall>f \<in> set (?fl # FI). hasRefMark f" using h ih(3) by simp
    ultimately show ?thesis by blast
  qed
qed

lemma interactive_lines_nonempty:
  "collectLines (\<lambda>l. interactiveLine l options) ls st = (I, st') \<Longrightarrow> [] \<notin> set I"
proof (induction ls arbitrary: st I st')
  case Nil
  then show ?case by simp
next
  case (Cons l ls)
  obtain rI s1 where pI: "interactiveLine l options st = (rI, s1)" by (cases "interactiveLine l options st")
  obtain I' s1' where cI: "collectLines (\<lambda>l. interactiveLine l options) ls s1 = (I', s1')"
    by (cases "collectLines (\<lambda>l. interactiveLine l options) ls s1")
  from Cons.IH [OF cI] have ih: "[] \<notin> set I'" .
  from interactiveLine_cases [OF pI] have "rI \<noteq> Some []" by auto
  with Cons.prems pI cI ih show ?case by (cases rI) auto
qed

lemma joinNL_empty: "[] \<notin> set ls \<Longrightarrow> joinNL ls = [] \<longleftrightarrow> ls = []"
  unfolding joinNL_def by (induction "[CHR 0x0A]" ls rule: joinWith.induct) auto

text \<open>
  C4, as stated, fails. The interactive-mode line of a nested link has lost its
  indentation and its trailing colon, although its annotation is the one of the full-mode
  line; and with a depth limit the full-mode text has no line for the link at all.
\<close>

theorem interactive_line_differs_from_full_line:
  "fst (processAriaTree tree_navigation (defaultOptions\<lparr>interactive := True\<rparr>) True freshState)
     = ''- link '' @ [CHR 0x22] @ ''Home'' @ [CHR 0x22] @ '' [ref=e1]''
   \<and> fst (processAriaTree tree_navigation defaultOptions True freshState)
     = ''- navigation:'' @ [CHR 0x0A]
       @ ''  - link '' @ [CHR 0x22] @ ''Home'' @ [CHR 0x22] @ '' [ref=e1]:'' @ [CHR 0x0A]
       @ ''    - /url: /home''
   \<and> fst (processAriaTree tree_navigation (defaultOptions\<lparr>interactive := True, maxDepth := Some 0\<rparr>)
          True freshState)
     = ''- link '' @ [CHR 0x22] @ ''Home'' @ [CHR 0x22] @ '' [ref=e1]''
   \<and> fst (processAriaTree tree_navigation (defaultOptions\<lparr>maxDepth := Some 0\<rparr>) True freshState)
     = ''- navigation:''"
  by code_simp

text \<open>
  C4, amended. With \<^verbatim>\<open>maxDepth\<close> unset, the lines of the interactive mode correspond one
  by one, in order, to lines of the full mode (same tree, state and remaining options,
  after the compact pass when \<^verbatim>\<open>compact\<close> is set): both lines of a pair come from one input
  line with an Interactive role and agree in role and quoted name; the interactive-mode
  line starts with \<^verbatim>\<open>- \<close> in place of the original indentation and dash, has a ref/nth
  annotation of its own, and keeps the suffix only when the suffix holds a bracket. The
  interactive-mode text is these lines joined, or \<^verbatim>\<open>(no interactive elements)\<close> when there
  is none.
\<close>

theorem interactive_lines_correspond:
  assumes "maxDepth options = None"
  shows "(\<exists>FI. subseq FI (outputLines t (options\<lparr>interactive := False\<rparr>) st)
              \<and> list_all2 corresponds (outputLines t (options\<lparr>interactive := True\<rparr>) st) FI)
         \<and> fst (processAriaTree t (options\<lparr>interactive := True\<rparr>) fin st)
             = (if outputLines t (options\<lparr>interactive := True\<rparr>) st = []
                then ''(no interactive elements)''
                else joinNL (outputLines t (options\<lparr>interactive := True\<rparr>) st))
         \<and> fst (processAriaTree t (options\<lparr>interactive := False\<rparr>) fin st)
             = joinNL (outputLines t (options\<lparr>interactive := False\<rparr>) st)"
proof -
  let ?oI = "options\<lparr>interactive := True\<rparr>" and ?oF = "options\<lparr>interactive := False\<rparr>"
  have ni: "\<not> interactive ?oF" and nd: "maxDepth ?oF = None" using assms by simp_all
  obtain I sI where cI: "collectLines (\<lambda>l. interactiveLine l ?oI) (splitNL t) st = (I, sI)"
    by (cases "collectLines (\<lambda>l. interactiveLine l ?oI) (splitNL t) st")
  obtain F sF where cF: "collectLines (\<lambda>l. processLine l ?oF) (splitNL t) st = (F, sF)"
    by (cases "collectLines (\<lambda>l. processLine l ?oF) (splitNL t) st")
  from collectLines_correspond [OF ni nd cI cF] obtain FI where
    fi: "subseq FI F" "list_all2 corresponds I FI" "\<forall>f \<in> set FI. hasRefMark f" by blast
  have oI: "outputLines t ?oI st = I" using cI by (simp add: outputLines_def)
  from collectLines_full_view [OF ni cF] have nl: "\<forall>out \<in> set F. CHR 0x0A \<notin> set out"
    by (auto dest: splitNL_noNL)
  have oF: "outputLines t ?oF st = (if compact options then compactLines F else F)"
    using cF nl by (simp add: outputLines_def compactLines_split_join)
  have "subseq FI (outputLines t ?oF st)"
    unfolding oF using fi(1) subseq_into_compactLines [OF fi(1) fi(3)] by simp
  with fi(2) oI have 1: "\<exists>FI. subseq FI (outputLines t ?oF st)
              \<and> list_all2 corresponds (outputLines t ?oI st) FI" by auto
  have "joinNL I = [] \<longleftrightarrow> I = []"
    by (rule joinNL_empty [OF interactive_lines_nonempty [OF cI]])
  then have 2: "fst (processAriaTree t ?oI fin st)
             = (if outputLines t ?oI st = [] then ''(no interactive elements)''
                else joinNL (outputLines t ?oI st))"
    unfolding processAriaTree_outputLines oI by simp
  have 3: "fst (processAriaTree t ?oF fin st) = joinNL (outputLines t ?oF st)"
    unfolding processAriaTree_outputLines by simp
  show ?thesis using 1 2 3 by blast
qed

theorem interactive_lines_correspond_witness:
  "maxDepth defaultOptions = None
   \<and> outputLines tree_navigation (defaultOptions\<lparr>interactive := True\<rparr>) freshState
       = [''- link '' @ [CHR 0x22] @ ''Home'' @ [CHR 0x22] @ '' [ref=e1]'']
   \<and> (\<exists>FI. subseq FI (outputLines tree_navigation (defaultOptions\<lparr>interactive := False\<rparr>) freshState)
          \<and> list_all2 corresponds
               [''- link '' @ [CHR 0x22] @ ''Home'' @ [CHR 0x22] @ '' [ref=e1]''] FI)
   \<and> fst (processAriaTree tree_navigation (defaultOptions\<lparr>interactive := True\<rparr>) True freshState)
       = ''- link '' @ [CHR 0x22] @ ''Home'' @ [CHR 0x22] @ '' [ref=e1]''"
proof -
  have h: "maxDepth defaultOptions = None" by (simp add: defaultOptions_def)
  have ev: "outputLines tree_navigation (defaultOptions\<lparr>interactive := True\<rparr>) freshState
       = [''- link '' @ [CHR 0x22] @ ''Home'' @ [CHR 0x22] @ '' [ref=e1]'']"
    by code_simp
  from interactive_lines_correspond [OF h, of tree_navigation freshState True]
  show ?thesis unfolding ev using h by (simp add: joinNL_def)
qed

section \<open>Refs in command arguments (C10)\<close>

text \<open>
  C10. \<^verbatim>\<open>parseRef\<close> is a total function into an optional string (\<open>None\<close> is
  \<^verbatim>\<open>null\<close>): an argument that begins with \<^verbatim>\<open>@\<close> gives the rest after it, unchecked;
  one that begins with \<^verbatim>\<open>ref=\<close> gives the rest after that; one that matches
  \<^verbatim>\<open>^e\d+$\<close> gives itself; every other argument gives \<^verbatim>\<open>null\<close>.
\<close>

theorem parseRef_cases:
  "parseRef (CHR ''@'' # rest) = Some rest
   \<and> parseRef (''ref='' @ rest) = Some rest
   \<and> (isRefId arg \<longrightarrow> parseRef arg = Some arg)
   \<and> (\<not> startsWith ''@'' arg \<and> \<not> startsWith ''ref='' arg \<and> \<not> isRefId arg
        \<longrightarrow> parseRef arg = None)"
proof -
  have a: "parseRef (CHR ''@'' # rest) = Some rest"
    by (simp add: parseRef_def startsWith_def)
  have b: "parseRef (''ref='' @ rest) = Some rest"
    by (simp add: parseRef_def startsWith_def)
  have c: "parseRef arg = Some arg" if "isRefId arg"
  proof -
    from that obtain ds where arg: "arg = CHR ''e'' # ds"
      by (auto simp: isRefId_def split: list.splits)
    show ?thesis using that by (simp add: arg parseRef_def startsWith_def)
  qed
  have d: "parseRef arg = None"
    if "\<not> startsWith ''@'' arg" "\<not> startsWith ''ref='' arg" "\<not> isRefId arg"
    using that by (simp add: parseRef_def)
  show ?thesis using a b c d by blast
qed

theorem parseRef_cases_witness:
  "parseRef ''@foo'' = Some ''foo''
   \<and> parseRef ''ref=e1'' = Some ''e1''
   \<and> isRefId ''e12'' \<and> parseRef ''e12'' = Some ''e12''
   \<and> \<not> startsWith ''@'' ''button'' \<and> \<not> startsWith ''ref='' ''button'' \<and> \<not> isRefId ''button''
   \<and> parseRef ''button'' = None"
proof -
  have r: "isRefId ''e12''" by (simp add: isRefId_def isDigit_def)
  have n: "\<not> startsWith ''@'' ''button'' \<and> \<not> startsWith ''ref='' ''button'' \<and> \<not> isRefId ''button''"
    by (simp add: startsWith_def isRefId_def)
  from parseRef_cases [of "''foo''" "''e12''"] r
  have 1: "parseRef ''@foo'' = Some ''foo''" "parseRef ''e12'' = Some ''e12''" by simp_all
  from parseRef_cases [of "''e1''" "''button''"] n
  have 2: "parseRef ''ref=e1'' = Some ''e1''" "parseRef ''button'' = None" by simp_all
  show ?thesis using 1 2 r n by simp
qed

section \<open>The refs that the loops issue\<close>

lemma refLine_emitted: "refLine options l \<Longrightarrow> emitted options l"
  by (simp add: refLine_def emitted_def split: if_splits)




lemma processLine_step:
  assumes ni: "\<not> interactive options"
    and p: "processLine l options st = (res, st')"
  shows "(refLine options l \<longrightarrow>
            (\<exists>idx. res = Some (annotated options l (refId (Suc (refCounter st))) idx))
            \<and> refCounter st' = Suc (refCounter st))
       \<and> (\<not> refLine options l \<and> emitted options l \<longrightarrow> res = Some l \<and> st' = st)
       \<and> (\<not> emitted options l \<longrightarrow> res = None \<and> st' = st)"
proof (cases "keptFull options l")
  case False
  with ni p show ?thesis
    unfolding processLine_shape [OF ni] by (simp add: refLine_def emitted_def)
next
  case k: True
  show ?thesis
  proof (cases "getsRef l")
    case False
    with ni p k show ?thesis
      unfolding processLine_shape [OF ni] by (simp add: refLine_def emitted_def)
  next
    case True
    then obtain pre role name sfx where m: "matchLine l = Some (pre, role, name, sfx)"
      by (auto simp: getsRef_def split: option.splits)
    obtain ref idx s1 where a: "assignRef (toLowerCase role) name st = ((ref, idx), s1)"
      by (cases "assignRef (toLowerCase role) name st") auto
    from p k True m a have r: "res = Some (pre @ role @ nameText name @ refText ref idx @ sfx)"
      and s: "st' = s1"
      unfolding processLine_shape [OF ni] by simp_all
    have ref: "ref = refId (Suc (refCounter st))" by (rule assignRef_effect(1) [OF a])
    have "refCounter s1 = Suc (refCounter st)" by (subst assignRef_effect(3) [OF a]) simp
    moreover have "res = Some (annotated options l (refId (Suc (refCounter st))) idx)"
      using ni m by (simp add: r ref annotated_def)
    ultimately show ?thesis using k True ni s by (auto simp: refLine_def emitted_def)
  qed
qed

lemma interactiveLine_step:
  assumes i: "interactive options"
    and p: "interactiveLine l options st = (res, st')"
  shows "(refLine options l \<longrightarrow>
            (\<exists>idx. res = Some (annotated options l (refId (Suc (refCounter st))) idx))
            \<and> refCounter st' = Suc (refCounter st))
       \<and> (\<not> refLine options l \<and> emitted options l \<longrightarrow> res = Some l \<and> st' = st)
       \<and> (\<not> emitted options l \<longrightarrow> res = None \<and> st' = st)"
proof (cases "interactiveRole l")
  case False
  with i p show ?thesis
    by (auto simp: interactiveLine_def interactiveRole_def refLine_def emitted_def Let_def
        split: option.splits)
next
  case True
  then obtain pre role name sfx where m: "matchLine l = Some (pre, role, name, sfx)"
    and r: "toLowerCase role \<in> set INTERACTIVE_ROLES"
    by (auto simp: interactiveRole_def split: option.splits)
  obtain ref idx s1 where a: "assignRef (toLowerCase role) name st = ((ref, idx), s1)"
    by (cases "assignRef (toLowerCase role) name st") auto
  from p m r a have res: "res = Some (''- '' @ role @ nameText name @ refText ref idx
                        @ (if sfx \<noteq> [] \<and> includesStr ''['' sfx then sfx else []))"
    and s: "st' = s1"
    by (simp_all add: interactiveLine_def Let_def)
  have ref: "ref = refId (Suc (refCounter st))" by (rule assignRef_effect(1) [OF a])
  have "refCounter s1 = Suc (refCounter st)" by (subst assignRef_effect(3) [OF a]) simp
  moreover have "res = Some (annotated options l (refId (Suc (refCounter st))) idx)"
    using i m by (simp add: res ref annotated_def)
  ultimately show ?thesis using True i s by (auto simp: refLine_def emitted_def)
qed

lemma collectLines_numbered:
  assumes step: "\<And>l s res s'. f l s = (res, s') \<Longrightarrow>
       (refLine options l \<longrightarrow>
            (\<exists>idx. res = Some (annotated options l (refId (Suc (refCounter s))) idx))
            \<and> refCounter s' = Suc (refCounter s))
       \<and> (\<not> refLine options l \<and> emitted options l \<longrightarrow> res = Some l \<and> s' = s)
       \<and> (\<not> emitted options l \<longrightarrow> res = None \<and> s' = s)"
  shows "collectLines f ls st = (outs, st') \<Longrightarrow>
     list_all2 (rendersAs options) outs (numbered options (refCounter st) ls)
     \<and> refCounter st' = refCounter st + length (filter (refLine options) ls)
     \<and> list_all2 (\<lambda>out l. \<not> refLine options l \<longrightarrow> out = l) outs (filter (emitted options) ls)"
proof (induction ls arbitrary: st outs st')
  case Nil
  then show ?case by simp
next
  case (Cons l ls)
  obtain res s1 where f: "f l st = (res, s1)" by (cases "f l st")
  obtain os s2 where c: "collectLines f ls s1 = (os, s2)" by (cases "collectLines f ls s1")
  note ih = Cons.IH [OF c]
  note st = step [OF f]
  show ?case
  proof (cases "refLine options l")
    case True
    with st obtain idx where r: "res = Some (annotated options l (refId (Suc (refCounter st))) idx)"
      and s: "refCounter s1 = Suc (refCounter st)" by blast
    from Cons.prems f c r have o: "outs = annotated options l (refId (Suc (refCounter st))) idx # os"
      and s': "st' = s2" by simp_all
    have "rendersAs options (annotated options l (refId (Suc (refCounter st))) idx) (l, Some (Suc (refCounter st)))"
      by (auto simp: rendersAs_def)
    with ih True refLine_emitted [OF True] show ?thesis by (simp add: o s' s)
  next
    case False
    show ?thesis
    proof (cases "emitted options l")
      case True
      with False st have r: "res = Some l" and s: "s1 = st" by simp_all
      from Cons.prems f c r have o: "outs = l # os" and s': "st' = s2" by simp_all
      from ih False True show ?thesis by (simp add: o s' s rendersAs_def)
    next
      case F: False
      with st have r: "res = None" and s: "s1 = st" by simp_all
      from Cons.prems f c r have o: "outs = os" and s': "st' = s2" by simp_all
      from ih False F show ?thesis by (simp add: o s' s)
    qed
  qed
qed

text \<open>The result array of the loop of \<^verbatim>\<open>processAriaTree\<close>, before the compact pass.\<close>

lemma loop_numbered:
  obtains outs s1 where
    "(if interactive options then collectLines (\<lambda>l. interactiveLine l options) (splitNL t) st
      else collectLines (\<lambda>l. processLine l options) (splitNL t) st) = (outs, s1)"
    and "list_all2 (rendersAs options) outs (numbered options (refCounter st) (splitNL t))"
    and "refCounter s1 = refCounter st + treeAssignments options t"
    and "list_all2 (\<lambda>out l. \<not> refLine options l \<longrightarrow> out = l) outs (filter (emitted options) (splitNL t))"
proof (cases "interactive options")
  case True
  obtain outs s1 where c: "collectLines (\<lambda>l. interactiveLine l options) (splitNL t) st = (outs, s1)"
    by (cases "collectLines (\<lambda>l. interactiveLine l options) (splitNL t) st")
  from collectLines_numbered [where f = "\<lambda>l. interactiveLine l options" and options = options, OF _ c]
    interactiveLine_step [OF True]
  have "list_all2 (rendersAs options) outs (numbered options (refCounter st) (splitNL t))
     \<and> refCounter s1 = refCounter st + length (filter (refLine options) (splitNL t))
     \<and> list_all2 (\<lambda>out l. \<not> refLine options l \<longrightarrow> out = l) outs (filter (emitted options) (splitNL t))"
    by blast
  with that [of outs s1] True c show ?thesis by (simp add: treeAssignments_def)
next
  case False
  obtain outs s1 where c: "collectLines (\<lambda>l. processLine l options) (splitNL t) st = (outs, s1)"
    by (cases "collectLines (\<lambda>l. processLine l options) (splitNL t) st")
  from collectLines_numbered [where f = "\<lambda>l. processLine l options" and options = options, OF _ c]
    processLine_step [OF False]
  have "list_all2 (rendersAs options) outs (numbered options (refCounter st) (splitNL t))
     \<and> refCounter s1 = refCounter st + length (filter (refLine options) (splitNL t))
     \<and> list_all2 (\<lambda>out l. \<not> refLine options l \<longrightarrow> out = l) outs (filter (emitted options) (splitNL t))"
    by blast
  with that [of outs s1] False c show ?thesis by (simp add: treeAssignments_def)
qed

lemma removeNth_counter: "refCounter (removeNthFromNonDuplicates st) = refCounter st"
  by (simp add: removeNthFromNonDuplicates_def Let_def)

lemma processAriaTree_counter:
  "refCounter (snd (processAriaTree t options fin st)) = refCounter st + treeAssignments options t"
proof -
  obtain outs s1 where
    c: "(if interactive options then collectLines (\<lambda>l. interactiveLine l options) (splitNL t) st
      else collectLines (\<lambda>l. processLine l options) (splitNL t) st) = (outs, s1)"
    and n: "refCounter s1 = refCounter st + treeAssignments options t"
    by (rule loop_numbered)
  have "snd (processAriaTree t options fin st) = (if fin then removeNthFromNonDuplicates s1 else s1)"
    using c by (auto simp: processAriaTree_def Let_def split: if_splits)
  with n show ?thesis by (simp add: removeNth_counter)
qed

lemma outputLines_loop:
  assumes "(if interactive options then collectLines (\<lambda>l. interactiveLine l options) (splitNL t) st
      else collectLines (\<lambda>l. processLine l options) (splitNL t) st) = (outs, s1)"
  shows "outputLines t options st
           = (if compact options \<and> \<not> interactive options then compactLines outs else outs)"
proof (cases "interactive options")
  case True
  with assms show ?thesis by (simp add: outputLines_def)
next
  case False
  with assms have c: "collectLines (\<lambda>l. processLine l options) (splitNL t) st = (outs, s1)" by simp
  from collectLines_full_view [OF False c] have "\<forall>out \<in> set outs. CHR 0x0A \<notin> set out"
    by (auto dest: splitNL_noNL)
  with False c show ?thesis by (simp add: outputLines_def compactLines_split_join)
qed

lemma cursorLines_numbered:
  "cursorLines els st = (ls, st') \<Longrightarrow>
     ls = map (\<lambda>p. cursorLineText (fst p) (refId (snd p)))
            (zip els [Suc (refCounter st)..<Suc (refCounter st) + length els])
     \<and> refCounter st' = refCounter st + length els"
proof (induction els arbitrary: st ls st')
  case Nil
  then show ?case by simp
next
  case (Cons el els)
  define s2 where "s2 = st\<lparr>refCounter := Suc (refCounter st),
               refs := AList.update (refId (Suc (refCounter st)))
                   \<lparr>ref_selector = el_selector el, ref_role = cursorRole el,
                    ref_name = Some (el_text el), ref_nth = None\<rparr> (refs st)\<rparr>"
  obtain ls2 s3 where c: "cursorLines els s2 = (ls2, s3)" by (cases "cursorLines els s2")
  have ctr: "refCounter s2 = Suc (refCounter st)" by (simp add: s2_def)
  from Cons.prems c have l: "ls = cursorLineText el (refId (Suc (refCounter st))) # ls2" and s: "st' = s3"
    by (simp_all add: nextRef_def Let_def s2_def refId_def cursorLineText_def)
  have u: "[Suc (refCounter st)..<Suc (refCounter st) + length (el # els)]
             = Suc (refCounter st) # [Suc (Suc (refCounter st))..<Suc (Suc (refCounter st)) + length els]"
    by (simp add: upt_conv_Cons del: upt_Suc)
  from Cons.IH [OF c] show ?case unfolding u l s ctr by simp
qed

lemma treeAssignments_empty: "treeAssignments options [] = 0"
proof -
  have "matchLine [] = None" by (simp add: matchLine_def)
  then have "\<not> refLine options []" by (simp add: refLine_def interactiveRole_def getsRef_def)
  then show ?thesis by (simp add: treeAssignments_def)
qed

lemma getEnhancedSnapshotForScope_counter:
  "refCounter (snd (getEnhancedSnapshotForScope page options st))
     = refCounter st + scopeAssignments page options"
proof -
  define base where "base =
            (case ariaSnapshot page (locatorOf options) of
               Inl e \<Rightarrow> (emptyTree options, st)
             | Inr ariaTree \<Rightarrow>
                 if ariaTree \<noteq> [] then processAriaTree ariaTree options False st
                 else if interactive options then (''(no interactive elements)'', st)
                 else (''(empty)'', st))"
  obtain t1 s1 where b: "base = (t1, s1)" by (cases base)
  have s1: "refCounter s1 = refCounter st
      + (case ariaSnapshot page (locatorOf options) of Inl e \<Rightarrow> 0 | Inr t \<Rightarrow> treeAssignments options t)"
  proof (cases "ariaSnapshot page (locatorOf options)")
    case (Inl e)
    with b show ?thesis by (simp add: base_def)
  next
    case (Inr t)
    show ?thesis
    proof (cases "t = []")
      case True
      with b Inr show ?thesis by (auto simp: base_def treeAssignments_empty split: if_splits)
    next
      case False
      with b Inr have "s1 = snd (processAriaTree t options False st)" by (simp add: base_def)
      with Inr show ?thesis by (simp add: processAriaTree_counter)
    qed
  qed
  obtain ls s2 where c: "cursorLines (findCursorInteractiveElements page (selector options)) s1 = (ls, s2)"
    by (cases "cursorLines (findCursorInteractiveElements page (selector options)) s1")
  from cursorLines_numbered [OF c]
  have s2: "refCounter s2 = refCounter s1 + length (findCursorInteractiveElements page (selector options))"
    by simp
  have "snd (getEnhancedSnapshotForScope page options st) = (if cursor options then s2 else s1)"
    unfolding getEnhancedSnapshotForScope_def base_def [symmetric] b
    by (auto simp: Let_def c split: if_splits)
  with s1 s2 show ?thesis by (simp add: scopeAssignments_def)
qed

lemma sectionParts_counter:
  "refCounter (snd (sectionParts page options sels st))
     = refCounter st
       + sum_list (map (\<lambda>sel. scopeAssignments page (options\<lparr>selector := Some sel\<rparr>)) sels)"
proof (induction sels arbitrary: st)
  case Nil
  then show ?case by simp
next
  case (Cons sel sels)
  obtain t s1 where a: "getEnhancedSnapshotForScope page (options\<lparr>selector := Some sel\<rparr>) st = (t, s1)"
    by (cases "getEnhancedSnapshotForScope page (options\<lparr>selector := Some sel\<rparr>) st")
  obtain ps s2 where b: "sectionParts page options sels s1 = (ps, s2)"
    by (cases "sectionParts page options sels s1")
  from getEnhancedSnapshotForScope_counter [of page "options\<lparr>selector := Some sel\<rparr>" st] a
  have 1: "refCounter s1 = refCounter st + scopeAssignments page (options\<lparr>selector := Some sel\<rparr>)"
    by simp
  from Cons [of s1] b
  have 2: "refCounter s2 = refCounter s1
       + sum_list (map (\<lambda>sel. scopeAssignments page (options\<lparr>selector := Some sel\<rparr>)) sels)"
    by simp
  have "snd (sectionParts page options (sel # sels) st) = s2"
    using a b by (auto split: if_splits)
  with 1 2 show ?case by simp
qed

lemma buildMyheloRegionSection_counter:
  "refCounter (snd (buildMyheloRegionSection page options sels st))
     = refCounter st
       + sum_list (map (\<lambda>sel. scopeAssignments page (options\<lparr>selector := Some sel\<rparr>)) sels)"
proof -
  have "snd (buildMyheloRegionSection page options sels st) = snd (sectionParts page options sels st)"
    by (simp add: buildMyheloRegionSection_def split: prod.splits)
  then show ?thesis by (simp add: sectionParts_counter)
qed

lemma regionSections_counter:
  "refCounter (snd (regionSections page options regions st))
     = refCounter st
       + sum_list (map (\<lambda>sel. scopeAssignments page (options\<lparr>selector := Some sel\<rparr>))
                     (concat (map selectors regions)))"
proof (induction regions arbitrary: st)
  case Nil
  then show ?case by simp
next
  case (Cons region regions)
  obtain t s1 where t: "buildMyheloRegionSection page options (selectors region) st = (t, s1)"
    by (cases "buildMyheloRegionSection page options (selectors region) st")
  obtain ss s2 where b: "regionSections page options regions s1 = (ss, s2)"
    by (cases "regionSections page options regions s1")
  from buildMyheloRegionSection_counter [of page options "selectors region" st] t
  have 1: "refCounter s1 = refCounter st
       + sum_list (map (\<lambda>sel. scopeAssignments page (options\<lparr>selector := Some sel\<rparr>)) (selectors region))"
    by simp
  from Cons [of s1] b
  have 2: "refCounter s2 = refCounter s1
       + sum_list (map (\<lambda>sel. scopeAssignments page (options\<lparr>selector := Some sel\<rparr>))
                     (concat (map selectors regions)))"
    by simp
  have "snd (regionSections page options (region # regions) st) = s2"
    using t b by simp
  with 1 2 show ?case by simp
qed

lemma getEnhancedSnapshot_counter:
  "refCounter (snd (getEnhancedSnapshot page options st0)) = snapshotAssignments page options"
proof -
  define st where "st = createRoleNameTracker ((resetRefs st0)\<lparr>refs := []\<rparr>)"
  have c0: "refCounter st = 0" by (simp add: st_def createRoleNameTracker_def resetRefs_def)
  define regions where "regions = getMyheloActiveRegions page"
  show ?thesis
  proof (cases "noSelector options \<and> regions \<noteq> []")
    case True
    have "snd (getEnhancedSnapshot page options st0)
            = removeNthFromNonDuplicates (snd (regionSections page options regions st))"
      using True
      by (simp add: getEnhancedSnapshot_def Let_def st_def [symmetric] regions_def [symmetric]
          split: prod.splits)
    with True c0 show ?thesis
      by (simp add: removeNth_counter regionSections_counter snapshotAssignments_def regions_def)
  next
    case False
    have "snd (getEnhancedSnapshot page options st0)
            = removeNthFromNonDuplicates (snd (getEnhancedSnapshotForScope page options st))"
      using False
      by (auto simp: getEnhancedSnapshot_def Let_def st_def [symmetric] regions_def [symmetric]
          split: prod.splits)
    with False c0 show ?thesis
      by (auto simp: removeNth_counter getEnhancedSnapshotForScope_counter snapshotAssignments_def
          regions_def)
  qed
qed

section \<open>Ref ids of a snapshot (C1)\<close>

text \<open>
  C1. In every top-level snapshot call the keys of the RefMap, in insertion order, are
  \<^verbatim>\<open>e1\<close>, \<^verbatim>\<open>e2\<close>, ..., \<^verbatim>\<open>en\<close>: each matches \<^verbatim>\<open>^e\d+$\<close> with a positive number, the
  numbers increase by one from 1, and so the ids are pairwise distinct. The call resets
  the counter first: whatever state the module was left in, the result is the same. No id
  is issued twice: \<open>n\<close> is the number of elements that get a ref (the lines of the trees
  that the loops give a ref, and the elements of the cursor detector), and it is where the
  counter stands after the call. \<^verbatim>\<open>nextRef\<close> issues the id after the counter and moves the
  counter on; a scope moves the counter on by the number of its elements that get a ref; and
  the ids written into the lines are the issued ones: in the lines of a tree the lines
  that get a ref carry, in order, the ids that follow the counter, and so do the lines of
  the cursor elements.
\<close>

theorem ref_ids_numbered:
  "map fst (snap_refs (fst (getEnhancedSnapshot page options st0)))
      = map refId [1..<Suc (length (snap_refs (fst (getEnhancedSnapshot page options st0))))]
   \<and> map refNumber (map fst (snap_refs (fst (getEnhancedSnapshot page options st0))))
      = map Some [1..<Suc (length (snap_refs (fst (getEnhancedSnapshot page options st0))))]
   \<and> distinct (map fst (snap_refs (fst (getEnhancedSnapshot page options st0))))
   \<and> fst (getEnhancedSnapshot page options st0) = fst (getEnhancedSnapshot page options st0')
   \<and> length (snap_refs (fst (getEnhancedSnapshot page options st0))) = snapshotAssignments page options
   \<and> refCounter (snd (getEnhancedSnapshot page options st0))
      = length (snap_refs (fst (getEnhancedSnapshot page options st0)))
   \<and> nextRef st = (refId (Suc (refCounter st)), st\<lparr>refCounter := Suc (refCounter st)\<rparr>)
   \<and> refCounter (snd (getEnhancedSnapshotForScope page options st))
      = refCounter st + scopeAssignments page options
   \<and> refCounter (snd (processAriaTree t options fin st)) = refCounter st + treeAssignments options t
   \<and> (\<exists>outs. list_all2 (rendersAs options) outs (numbered options (refCounter st) (splitNL t))
         \<and> outputLines t options st
            = (if compact options \<and> \<not> interactive options then compactLines outs else outs))
   \<and> fst (cursorLines els st)
      = map (\<lambda>p. cursorLineText (fst p) (refId (snd p)))
          (zip els [Suc (refCounter st)..<Suc (refCounter st) + length els])
   \<and> refCounter (snd (cursorLines els st)) = refCounter st + length els"
proof -
  obtain st1 where inv: "INV st1"
    and eq: "getEnhancedSnapshot page options st0
      = (\<lparr>tree = tree (fst (getEnhancedSnapshot page options st0)),
          snap_refs = refs (removeNthFromNonDuplicates st1)\<rparr>, removeNthFromNonDuplicates st1)"
    using getEnhancedSnapshot_pre by blast
  define rs where "rs = snap_refs (fst (getEnhancedSnapshot page options st0))"
  have rs: "rs = refs (removeNthFromNonDuplicates st1)"
    unfolding rs_def by (subst eq) simp
  have fin: "snd (getEnhancedSnapshot page options st0) = removeNthFromNonDuplicates st1"
    by (subst eq) simp
  from inv have "map fst (refs st1) = map refId [1..<Suc (refCounter st1)]"
    by (simp add: INV_def)
  then have keys: "map fst rs = map refId [1..<Suc (refCounter st1)]"
    by (simp add: rs removeNth_keys)
  then have "length (map fst rs) = length (map refId [1..<Suc (refCounter st1)])" by simp
  then have len: "length rs = refCounter st1" by (simp del: upt_Suc)
  have 1: "map fst rs = map refId [1..<Suc (length rs)]"
    using keys len by simp
  have 2: "map refNumber (map fst rs) = map Some [1..<Suc (length rs)]"
    by (subst 1) (simp add: comp_def refNumber_refId del: upt_Suc)
  have "inj_on refId (set [1..<Suc (length rs)])"
    by (rule inj_onI) (rule refId_inj)
  then have "distinct (map refId [1..<Suc (length rs)])"
    by (simp add: distinct_map del: upt_Suc)
  then have 3: "distinct (map fst rs)" using 1 by simp
  have 4: "fst (getEnhancedSnapshot page options st0) = fst (getEnhancedSnapshot page options st0')"
    using getEnhancedSnapshot_state_independent [of page options st0 st0'] by simp
  have 6: "refCounter (snd (getEnhancedSnapshot page options st0)) = length rs"
    unfolding fin by (simp add: removeNth_counter len)
  have 5: "length rs = snapshotAssignments page options"
    using 6 by (simp add: getEnhancedSnapshot_counter)
  have 7: "nextRef st = (refId (Suc (refCounter st)), st\<lparr>refCounter := Suc (refCounter st)\<rparr>)"
    by (simp add: nextRef_def refId_def)
  have 8: "refCounter (snd (getEnhancedSnapshotForScope page options st))
      = refCounter st + scopeAssignments page options"
    by (rule getEnhancedSnapshotForScope_counter)
  have 9: "refCounter (snd (processAriaTree t options fin st)) = refCounter st + treeAssignments options t"
    by (rule processAriaTree_counter)
  obtain outs s1 where
    c: "(if interactive options then collectLines (\<lambda>l. interactiveLine l options) (splitNL t) st
      else collectLines (\<lambda>l. processLine l options) (splitNL t) st) = (outs, s1)"
    and n: "list_all2 (rendersAs options) outs (numbered options (refCounter st) (splitNL t))"
    by (rule loop_numbered)
  from n outputLines_loop [OF c]
  have 10: "\<exists>outs. list_all2 (rendersAs options) outs (numbered options (refCounter st) (splitNL t))
         \<and> outputLines t options st
            = (if compact options \<and> \<not> interactive options then compactLines outs else outs)"
    by blast
  obtain ls s2 where cl: "cursorLines els st = (ls, s2)" by (cases "cursorLines els st")
  from cursorLines_numbered [OF cl] cl
  have 11: "fst (cursorLines els st)
      = map (\<lambda>p. cursorLineText (fst p) (refId (snd p)))
          (zip els [Suc (refCounter st)..<Suc (refCounter st) + length els])"
    and 12: "refCounter (snd (cursorLines els st)) = refCounter st + length els"
    by simp_all
  show ?thesis using 1 2 3 4 5 6 7 8 9 10 11 12 unfolding rs_def by blast
qed

theorem ref_ids_numbered_witness:
  "map fst (snap_refs (fst (getEnhancedSnapshot page_two_buttons defaultOptions freshState)))
      = [''e1'', ''e2'']
   \<and> snapshotAssignments page_two_buttons defaultOptions = 2
   \<and> refCounter (snd (getEnhancedSnapshot page_two_buttons defaultOptions freshState)) = 2
   \<and> tree (fst (getEnhancedSnapshot page_two_buttons defaultOptions freshState))
      = ''- button '' @ [CHR 0x22] @ ''A'' @ [CHR 0x22] @ '' [ref=e1]'' @ [CHR 0x0A]
        @ ''- button '' @ [CHR 0x22] @ ''A'' @ [CHR 0x22] @ '' [ref=e2] [nth=1]''"
proof -
  have l: "length (snap_refs (fst (getEnhancedSnapshot page_two_buttons defaultOptions freshState))) = 2"
    by code_simp
  have t: "tree (fst (getEnhancedSnapshot page_two_buttons defaultOptions freshState))
      = ''- button '' @ [CHR 0x22] @ ''A'' @ [CHR 0x22] @ '' [ref=e1]'' @ [CHR 0x0A]
        @ ''- button '' @ [CHR 0x22] @ ''A'' @ [CHR 0x22] @ '' [ref=e2] [nth=1]''"
    by code_simp
  have r: "map refId [1..<Suc 2] = [''e1'', ''e2'']" by code_simp
  from ref_ids_numbered [of page_two_buttons defaultOptions freshState]
  have "map fst (snap_refs (fst (getEnhancedSnapshot page_two_buttons defaultOptions freshState)))
      = map refId [1..<Suc (length (snap_refs (fst (getEnhancedSnapshot page_two_buttons defaultOptions freshState))))]"
    and "length (snap_refs (fst (getEnhancedSnapshot page_two_buttons defaultOptions freshState)))
      = snapshotAssignments page_two_buttons defaultOptions"
    and "refCounter (snd (getEnhancedSnapshot page_two_buttons defaultOptions freshState))
      = length (snap_refs (fst (getEnhancedSnapshot page_two_buttons defaultOptions freshState)))"
    by blast+
  then show ?thesis unfolding l r using t by simp
qed

section \<open>Plain and metadata lines in the output (C5)\<close>









section \<open>Compact mode at the top level (C7)\<close>

text \<open>
  C7 fails on the code. The region stitcher skips a scope whose tree came out empty and
  renders a section without any scope left as \<^verbatim>\<open>(empty)\<close>. For a shell whose contents
  pane holds one unnamed image, compact mode drops the image line and the section reads
  \<^verbatim>\<open>(empty)\<close>: the text of compact mode is two characters longer than the text without
  it. The line that the compact pass drops here is not one of a Structural role, and
  neither is the named image that it drops from a tree of its own.
\<close>

theorem compact_snapshot_longer_on_shell_page:
  "tree (fst (getEnhancedSnapshot page_image_pane (defaultOptions\<lparr>compact := True\<rparr>) freshState))
     = ''# Contents:'' @ [CHR 0x0A] @ ''(empty)''
   \<and> tree (fst (getEnhancedSnapshot page_image_pane (defaultOptions\<lparr>compact := False\<rparr>) freshState))
     = ''# Contents:'' @ [CHR 0x0A] @ ''- img''
   \<and> statsChars (tree (fst (getEnhancedSnapshot page_image_pane (defaultOptions\<lparr>compact := True\<rparr>) freshState)))
     = 19
   \<and> statsChars (tree (fst (getEnhancedSnapshot page_image_pane (defaultOptions\<lparr>compact := False\<rparr>) freshState)))
     = 17
   \<and> fst (processAriaTree (''- img '' @ [CHR 0x22] @ ''Logo'' @ [CHR 0x22])
            (defaultOptions\<lparr>compact := True\<rparr>) True freshState) = []
   \<and> fst (processAriaTree (''- img '' @ [CHR 0x22] @ ''Logo'' @ [CHR 0x22])
            (defaultOptions\<lparr>compact := False\<rparr>) True freshState)
     = ''- img '' @ [CHR 0x22] @ ''Logo'' @ [CHR 0x22]
   \<and> ''img'' \<notin> set STRUCTURAL_ROLES"
  by code_simp

section \<open>The run of the cursor detector (C8)\<close>

lemma assignOrder_zip:
  "assignOrder k cs = map (\<lambda>z. (snd z)\<lparr>c_order := fst z\<rparr>) (zip [k..<k + length cs] cs)"
proof (induction cs arbitrary: k)
  case Nil
  then show ?case by simp
next
  case (Cons c cs)
  have "[k..<k + length (c # cs)] = k # [Suc k..<Suc k + length cs]"
    by (simp add: upt_conv_Cons del: upt_Suc)
  with Cons [of "Suc k"] show ?case by (simp del: upt_Suc)
qed

lemma assignOrder_orders: "map c_order (assignOrder k cs) = [k..<k + length cs]"
proof (induction cs arbitrary: k)
  case Nil
  then show ?case by simp
next
  case (Cons c cs)
  have "[k..<k + length (c # cs)] = k # [Suc k..<Suc k + length cs]"
    by (simp add: upt_conv_Cons del: upt_Suc)
  with Cons [of "Suc k"] show ?case by (simp del: upt_Suc)
qed

lemma snd_zip_upt: "map snd (zip [k..<k + length cs] cs) = cs"
  by (simp add: map_snd_zip)

text \<open>
  A duplicate-free list that is sorted by a key and drawn from a list on which the key
  strictly increases is that list filtered.
\<close>

lemma sorted_sublist_is_filter:
  fixes f :: "'a \<Rightarrow> nat"
  assumes dl: "distinct (map f L)" and sl: "sorted (map f L)"
    and sub: "set xs \<subseteq> set L" and dx: "distinct xs" and sx: "sorted (map f xs)"
  shows "xs = filter (\<lambda>x. x \<in> set xs) L"
proof -
  let ?ys = "filter (\<lambda>x. x \<in> set xs) L"
  from dl have inj: "inj_on f (set L)" by (simp add: distinct_map)
  have sety: "set ?ys = set xs" using sub by auto
  have "inj_on f (set xs)" using inj sub by (rule inj_on_subset)
  with dx have d1: "distinct (map f xs)" by (simp add: distinct_map)
  have d2: "distinct (map f ?ys)" using dl by (rule distinct_map_filter)
  have s2: "sorted (map f ?ys)" using sl by (rule sorted_filter)
  have "set (map f xs) = set (map f ?ys)" using sety by simp
  with sx d1 s2 d2 have "map f xs = map f ?ys" by (intro sorted_distinct_set_unique)
  moreover have "inj_on f (set xs \<union> set ?ys)" using inj sub sety by (auto intro: inj_on_subset)
  ultimately show ?thesis by (simp add: inj_on_map_eq_map)
qed

lemma selectCandidates_subseq_aux:
  "\<exists>ys. subseq ys cs
     \<and> foldl (\<lambda>selected candidate.
              if overlaps contains selected candidate then selected
              else selected @ [candidate]) acc cs = acc @ ys"
proof (induction cs arbitrary: acc)
  case Nil
  then show ?case by simp
next
  case (Cons c cs)
  show ?case
  proof (cases "overlaps contains acc c")
    case True
    from Cons [of acc] obtain ys where "subseq ys cs"
      "foldl (\<lambda>selected candidate.
              if overlaps contains selected candidate then selected
              else selected @ [candidate]) acc cs = acc @ ys" by blast
    with True show ?thesis by (intro exI [of _ ys]) (simp add: list_emb_Cons)
  next
    case False
    from Cons [of "acc @ [c]"] obtain ys where "subseq ys cs"
      "foldl (\<lambda>selected candidate.
              if overlaps contains selected candidate then selected
              else selected @ [candidate]) (acc @ [c]) cs = (acc @ [c]) @ ys" by blast
    with False show ?thesis by (intro exI [of _ "c # ys"]) simp
  qed
qed

lemma selectCandidates_subseq: "subseq (selectCandidates contains cs) cs"
  unfolding selectCandidates_def using selectCandidates_subseq_aux [of cs contains "[]"] by auto

lemma subseq_distinct_list: "subseq xs ys \<Longrightarrow> distinct ys \<Longrightarrow> distinct xs"
proof (induction rule: list_emb.induct)
  case (list_emb_Cons2 x y xs ys)
  then show ?case using subseq_set [of xs ys] by auto
qed simp_all

text \<open>The walk leaves out only candidates that overlap an accepted one.\<close>

lemma selectCandidates_maximal_aux:
  "set acc \<subseteq> set (foldl (\<lambda>selected candidate.
              if overlaps contains selected candidate then selected
              else selected @ [candidate]) acc cs)
   \<and> (\<forall>c \<in> set cs.
        c \<in> set (foldl (\<lambda>selected candidate.
              if overlaps contains selected candidate then selected
              else selected @ [candidate]) acc cs)
        \<or> (\<exists>a \<in> set (foldl (\<lambda>selected candidate.
              if overlaps contains selected candidate then selected
              else selected @ [candidate]) acc cs). \<not> noContainment contains a c))"
proof (induction cs arbitrary: acc)
  case Nil
  then show ?case by simp
next
  case (Cons c cs)
  let ?step = "\<lambda>selected candidate.
              if overlaps contains selected candidate then selected
              else selected @ [candidate]"
  define acc' where "acc' = ?step acc c"
  have f: "foldl ?step acc (c # cs) = foldl ?step acc' cs" by (simp add: acc'_def)
  from Cons [of acc'] have mono: "set acc' \<subseteq> set (foldl ?step acc' cs)"
    and rest: "\<forall>d \<in> set cs. d \<in> set (foldl ?step acc' cs)
                 \<or> (\<exists>a \<in> set (foldl ?step acc' cs). \<not> noContainment contains a d)"
    by simp_all
  have sub: "set acc \<subseteq> set acc'" by (auto simp: acc'_def)
  have c: "c \<in> set acc' \<or> (\<exists>a \<in> set acc'. \<not> noContainment contains a c)"
  proof (cases "overlaps contains acc c")
    case True
    then obtain a where "a \<in> set acc" "\<not> noContainment contains a c"
      by (auto simp: overlaps_def noContainment_def list_ex_iff)
    with sub show ?thesis by blast
  next
    case False
    then show ?thesis by (simp add: acc'_def)
  qed
  from c mono have "c \<in> set (foldl ?step acc' cs)
      \<or> (\<exists>a \<in> set (foldl ?step acc' cs). \<not> noContainment contains a c)" by blast
  with rest sub mono show ?case unfolding f by auto
qed

lemma selectCandidates_maximal:
  "c \<in> set cs \<Longrightarrow> c \<in> set (selectCandidates contains cs)
     \<or> (\<exists>a \<in> set (selectCandidates contains cs). \<not> noContainment contains a c)"
  unfolding selectCandidates_def using selectCandidates_maximal_aux [of "[]" contains cs] by blast

text \<open>
  When the walk goes through a sorted list, a candidate is left out only for an accepted
  one that comes before it in the order.
\<close>

lemma selectCandidates_blocker_aux:
  assumes "sorted_wrt R cs" "\<forall>a \<in> set acc. \<forall>c \<in> set cs. R a c"
  shows "\<forall>c \<in> set cs.
        c \<in> set (foldl (\<lambda>selected candidate.
              if overlaps contains selected candidate then selected
              else selected @ [candidate]) acc cs)
        \<or> (\<exists>a \<in> set (foldl (\<lambda>selected candidate.
              if overlaps contains selected candidate then selected
              else selected @ [candidate]) acc cs). \<not> noContainment contains a c \<and> R a c)"
  using assms
proof (induction cs arbitrary: acc)
  case Nil
  then show ?case by simp
next
  case (Cons c cs)
  let ?step = "\<lambda>selected candidate.
              if overlaps contains selected candidate then selected
              else selected @ [candidate]"
  define acc' where "acc' = ?step acc c"
  have f: "foldl ?step acc (c # cs) = foldl ?step acc' cs" by (simp add: acc'_def)
  have mono: "set acc' \<subseteq> set (foldl ?step acc' cs)"
    using selectCandidates_maximal_aux [of acc' contains cs] by simp
  have sub: "set acc \<subseteq> set acc'" by (auto simp: acc'_def)
  from Cons.prems have s: "sorted_wrt R cs" and first: "\<forall>d \<in> set cs. R c d" by simp_all
  have "\<forall>a \<in> set acc'. \<forall>d \<in> set cs. R a d"
    using Cons.prems(2) first by (auto simp: acc'_def)
  from Cons.IH [OF s this]
  have rest: "\<forall>d \<in> set cs. d \<in> set (foldl ?step acc' cs)
                 \<or> (\<exists>a \<in> set (foldl ?step acc' cs). \<not> noContainment contains a d \<and> R a d)" .
  have c: "c \<in> set acc' \<or> (\<exists>a \<in> set acc'. \<not> noContainment contains a c \<and> R a c)"
  proof (cases "overlaps contains acc c")
    case True
    then obtain a where "a \<in> set acc" "\<not> noContainment contains a c"
      by (auto simp: overlaps_def noContainment_def list_ex_iff)
    moreover from this Cons.prems(2) have "R a c" by simp
    ultimately show ?thesis using sub by blast
  next
    case False
    then show ?thesis by (simp add: acc'_def)
  qed
  from c mono have "c \<in> set (foldl ?step acc' cs)
      \<or> (\<exists>a \<in> set (foldl ?step acc' cs). \<not> noContainment contains a c \<and> R a c)" by blast
  with rest show ?case unfolding f by simp
qed

lemma selectCandidates_blocker:
  assumes "sorted_wrt R cs" "c \<in> set cs"
  shows "c \<in> set (selectCandidates contains cs)
     \<or> (\<exists>a \<in> set (selectCandidates contains cs). \<not> noContainment contains a c \<and> R a c)"
  unfolding selectCandidates_def
  using selectCandidates_blocker_aux [of R cs "[]" contains] assms by simp

lemma toCursorElement_order: "toCursorElement (c\<lparr>c_order := k\<rparr>) = toCursorElement c"
  by (simp add: toCursorElement_def)

lemma noContainment_order:
  "noContainment contains (a\<lparr>c_order := i\<rparr>) (b\<lparr>c_order := j\<rparr>) = noContainment contains a b"
  by (simp add: noContainment_def)

text \<open>What the detector accepts, as candidates of the scan.\<close>

lemma dedupeCandidates_scan:
  fixes scan :: "Candidate list"
  defines "A \<equiv> assignOrder 0 scan"
  shows "\<exists>accepted.
      map toCursorElement (dedupeCandidates contains A) = map toCursorElement accepted
    \<and> subseq accepted scan
    \<and> sorted_wrt (noContainment contains) accepted
    \<and> (\<forall>c \<in> set scan. c \<in> set accepted \<or> (\<exists>a \<in> set accepted. \<not> noContainment contains a c))"
proof -
  let ?ord = "\<lambda>a b. int (c_order a) - int (c_order b)"
  let ?g = "\<lambda>z. (snd z)\<lparr>c_order := fst z\<rparr>"
  let ?N = "zip [0..<0 + length scan] scan"
  define xs where "xs = dedupeCandidates contains A"
  define zs where "zs = filter (\<lambda>z. ?g z \<in> set xs) ?N"
  define accepted where "accepted = map snd zs"
  have A: "A = map ?g ?N" unfolding A_def by (rule assignOrder_zip)
  have ordA: "map c_order A = [0..<0 + length scan]" unfolding A_def by (rule assignOrder_orders)
  have dA: "distinct (map c_order A)" and sA: "sorted (map c_order A)"
    unfolding ordA by simp_all
  from dA have distA: "distinct A" by (simp add: distinct_map)
  have "mset (sortBy compareCandidates A) = mset A" by (rule mset_sortBy)
  then have "distinct (sortBy compareCandidates A)"
    using distA by (metis mset_eq_imp_distinct_iff)
  then have dsel: "distinct (selectCandidates contains (sortBy compareCandidates A))"
    using selectCandidates_subseq by (rule subseq_distinct_list [rotated])
  have "mset xs = mset (selectCandidates contains (sortBy compareCandidates A))"
    unfolding xs_def dedupeCandidates_def by (rule mset_sortBy)
  then have dx: "distinct xs" using dsel by (metis mset_eq_imp_distinct_iff)
  have setx: "set xs = set (selectCandidates contains (sortBy compareCandidates A))"
    unfolding xs_def dedupeCandidates_def by (rule set_sortBy)
  have sub: "set xs \<subseteq> set A"
    unfolding setx using selectCandidates_subset [of contains "sortBy compareCandidates A"]
    by (simp add: set_sortBy)
  have "sorted_wrt (\<lambda>a b. ?ord a b \<le> 0) (sortBy ?ord (selectCandidates contains (sortBy compareCandidates A)))"
    by (rule sorted_sortBy) auto
  then have sx: "sorted (map c_order xs)"
    by (simp add: xs_def dedupeCandidates_def sorted_map)
  from sorted_sublist_is_filter [OF dA sA sub dx sx]
  have "xs = filter (\<lambda>x. x \<in> set xs) A" .
  then have xs: "xs = map ?g zs"
    unfolding A zs_def by (simp add: filter_map comp_def)
  have 1: "map toCursorElement (dedupeCandidates contains A) = map toCursorElement accepted"
    unfolding xs_def [symmetric] by (subst xs) (simp add: accepted_def toCursorElement_order)
  have "subseq zs ?N" unfolding zs_def by simp
  then have "subseq (map snd zs) (map snd ?N)" by (rule subseq_map)
  then have 2: "subseq accepted scan" by (simp add: accepted_def map_snd_zip)
  have sym: "\<And>a b. noContainment contains a b \<Longrightarrow> noContainment contains b a"
    by (auto simp: noContainment_def)
  have "sorted_wrt (noContainment contains) xs"
    unfolding xs_def dedupeCandidates_def by (rule pairwise_sortBy [OF sym selectCandidates_pairwise])
  then have 3: "sorted_wrt (noContainment contains) accepted"
    by (subst (asm) xs) (simp add: accepted_def sorted_wrt_map noContainment_order)
  have 4: "c \<in> set accepted \<or> (\<exists>a \<in> set accepted. \<not> noContainment contains a c)"
    if c: "c \<in> set scan" for c
  proof -
    from c obtain i where i: "i < length scan" "scan ! i = c" by (auto simp: in_set_conv_nth)
    define z where "z = (i, c)"
    have zN: "z \<in> set ?N" using i by (auto simp: z_def in_set_zip intro!: exI [of _ i])
    then have "?g z \<in> set (sortBy compareCandidates A)" by (simp add: set_sortBy A)
    from selectCandidates_maximal [OF this, of contains]
    have "?g z \<in> set xs \<or> (\<exists>a \<in> set xs. \<not> noContainment contains a (?g z))"
      unfolding setx .
    then show ?thesis
    proof
      assume "?g z \<in> set xs"
      with zN have "z \<in> set zs" by (simp add: zs_def)
      then have "snd z \<in> set accepted" unfolding accepted_def by simp
      then show ?thesis by (simp add: z_def)
    next
      assume "\<exists>a \<in> set xs. \<not> noContainment contains a (?g z)"
      then obtain z' where z': "z' \<in> set zs" "\<not> noContainment contains (?g z') (?g z)"
        unfolding xs by auto
      then have "snd z' \<in> set accepted" "\<not> noContainment contains (snd z') c"
        by (simp_all add: accepted_def noContainment_order z_def)
      then show ?thesis by blast
    qed
  qed
  from 1 2 3 4 show ?thesis by blast
qed

lemma sortBy_compareCandidates_spec:
  "sorted_wrt specPrecedes (sortBy compareCandidates cs)"
proof -
  have "sorted_wrt (\<lambda>a b. compareCandidates a b \<le> 0) (sortBy compareCandidates cs)"
    by (rule sorted_sortBy [OF compareCandidates_total compareCandidates_trans])
  then show ?thesis
    by (rule sorted_wrt_mono_rel [rotated]) (rule compareCandidates_spec)
qed

text \<open>
  C8. In a run of the cursor-interactive detector whose in-page query succeeds, the
  elements come from a list of accepted candidates that is a subsequence of the scan, so
  they are emitted in discovery (page) order; no two accepted candidates are related by
  containment, in either direction; and every scanned candidate that is not accepted is
  related by containment to an accepted one. The scan numbers the candidates by their
  place; the candidates are walked in the order that sorts them by descending score, then
  (at equal score) shallower first when both are labeled and deeper first otherwise, then
  by discovery order; the walk accepts a candidate exactly when it overlaps none accepted
  so far, so a candidate is left out only for an accepted one that comes before it in this
  order; and the accepted candidates are sorted back by their place in the scan.
\<close>

theorem cursor_detector_containment_and_order:
  assumes "cursorScan page (case sel of None \<Rightarrow> ''body'' | Some s \<Rightarrow> if s = [] then ''body'' else s)
             = Inr doc"
  shows "(\<exists>accepted.
            findCursorInteractiveElements page sel = map toCursorElement accepted
          \<and> subseq accepted (cd_scan doc)
          \<and> (\<forall>i j. i < j \<and> j < length accepted \<longrightarrow>
                noContainment (cd_contains doc) (accepted ! i) (accepted ! j))
          \<and> (\<forall>c \<in> set (cd_scan doc).
                c \<in> set accepted \<or> (\<exists>a \<in> set accepted. \<not> noContainment (cd_contains doc) a c)))
       \<and> map c_order (assignOrder 0 (cd_scan doc)) = [0..<length (cd_scan doc)]
       \<and> sorted_wrt specPrecedes (sortBy compareCandidates (assignOrder 0 (cd_scan doc)))
       \<and> mset (sortBy compareCandidates (assignOrder 0 (cd_scan doc))) = mset (assignOrder 0 (cd_scan doc))
       \<and> selectCandidates (cd_contains doc) (walked @ [c])
           = (if overlaps (cd_contains doc) (selectCandidates (cd_contains doc) walked) c
              then selectCandidates (cd_contains doc) walked
              else selectCandidates (cd_contains doc) walked @ [c])
       \<and> (\<forall>c \<in> set (assignOrder 0 (cd_scan doc)).
             c \<in> set (selectCandidates (cd_contains doc)
                         (sortBy compareCandidates (assignOrder 0 (cd_scan doc))))
             \<or> (\<exists>a \<in> set (selectCandidates (cd_contains doc)
                                (sortBy compareCandidates (assignOrder 0 (cd_scan doc)))).
                   \<not> noContainment (cd_contains doc) a c \<and> specPrecedes a c))
       \<and> findCursorInteractiveElements page sel
           = map toCursorElement
               (sortBy (\<lambda>a b. int (c_order a) - int (c_order b))
                  (selectCandidates (cd_contains doc)
                     (sortBy compareCandidates (assignOrder 0 (cd_scan doc)))))"
proof -
  have f: "findCursorInteractiveElements page sel
      = map toCursorElement (dedupeCandidates (cd_contains doc) (assignOrder 0 (cd_scan doc)))"
    using assms by (simp add: findCursorInteractiveElements_def Let_def)
  from dedupeCandidates_scan [of "cd_contains doc" "cd_scan doc"]
  obtain accepted where a: "map toCursorElement (dedupeCandidates (cd_contains doc) (assignOrder 0 (cd_scan doc)))
        = map toCursorElement accepted"
    "subseq accepted (cd_scan doc)"
    "sorted_wrt (noContainment (cd_contains doc)) accepted"
    "\<forall>c \<in> set (cd_scan doc).
        c \<in> set accepted \<or> (\<exists>a \<in> set accepted. \<not> noContainment (cd_contains doc) a c)"
    by blast
  from a(3) have "\<forall>i j. i < j \<and> j < length accepted \<longrightarrow>
                noContainment (cd_contains doc) (accepted ! i) (accepted ! j)"
    by (simp add: sorted_wrt_iff_nth_less)
  with a f have 1: "\<exists>accepted.
            findCursorInteractiveElements page sel = map toCursorElement accepted
          \<and> subseq accepted (cd_scan doc)
          \<and> (\<forall>i j. i < j \<and> j < length accepted \<longrightarrow>
                noContainment (cd_contains doc) (accepted ! i) (accepted ! j))
          \<and> (\<forall>c \<in> set (cd_scan doc).
                c \<in> set accepted \<or> (\<exists>a \<in> set accepted. \<not> noContainment (cd_contains doc) a c))"
    by (intro exI [of _ accepted]) simp
  have 2: "map c_order (assignOrder 0 (cd_scan doc)) = [0..<length (cd_scan doc)]"
    using assignOrder_orders [of 0 "cd_scan doc"] by simp
  have 3: "sorted_wrt specPrecedes (sortBy compareCandidates (assignOrder 0 (cd_scan doc)))"
    by (rule sortBy_compareCandidates_spec)
  have 4: "mset (sortBy compareCandidates (assignOrder 0 (cd_scan doc))) = mset (assignOrder 0 (cd_scan doc))"
    by (rule mset_sortBy)
  have 5: "selectCandidates (cd_contains doc) (walked @ [c])
           = (if overlaps (cd_contains doc) (selectCandidates (cd_contains doc) walked) c
              then selectCandidates (cd_contains doc) walked
              else selectCandidates (cd_contains doc) walked @ [c])"
    by (simp add: selectCandidates_def)
  have 6: "findCursorInteractiveElements page sel
           = map toCursorElement
               (sortBy (\<lambda>a b. int (c_order a) - int (c_order b))
                  (selectCandidates (cd_contains doc)
                     (sortBy compareCandidates (assignOrder 0 (cd_scan doc)))))"
    unfolding f by (simp add: dedupeCandidates_def)
  have 7: "\<forall>c \<in> set (assignOrder 0 (cd_scan doc)).
             c \<in> set (selectCandidates (cd_contains doc)
                         (sortBy compareCandidates (assignOrder 0 (cd_scan doc))))
             \<or> (\<exists>a \<in> set (selectCandidates (cd_contains doc)
                                (sortBy compareCandidates (assignOrder 0 (cd_scan doc)))).
                   \<not> noContainment (cd_contains doc) a c \<and> specPrecedes a c)"
  proof
    fix c assume "c \<in> set (assignOrder 0 (cd_scan doc))"
    then have "c \<in> set (sortBy compareCandidates (assignOrder 0 (cd_scan doc)))"
      by (simp add: set_sortBy)
    from selectCandidates_blocker [OF 3 this, of "cd_contains doc"]
    show "c \<in> set (selectCandidates (cd_contains doc)
                         (sortBy compareCandidates (assignOrder 0 (cd_scan doc))))
             \<or> (\<exists>a \<in> set (selectCandidates (cd_contains doc)
                                (sortBy compareCandidates (assignOrder 0 (cd_scan doc)))).
                   \<not> noContainment (cd_contains doc) a c \<and> specPrecedes a c)" .
  qed
  show ?thesis using 1 2 3 4 5 6 7 by blast
qed

theorem cursor_detector_containment_and_order_witness:
  "cursorScan page_wrapper ''body'' = Inr \<lparr>cd_contains = wrapperContains, cd_scan = wrapperScan\<rparr>
   \<and> findCursorInteractiveElements page_wrapper None
      = [\<lparr>el_selector = ''#wrap'', el_text = ''Attach file'', el_tagName = ''div'',
          el_hasOnClick = False, el_hasCursorPointer = True, el_hasTabIndex = False\<rparr>,
         \<lparr>el_selector = ''#other'', el_text = ''Send'', el_tagName = ''div'',
          el_hasOnClick = True, el_hasCursorPointer = True, el_hasTabIndex = False\<rparr>]
   \<and> (\<exists>accepted.
          findCursorInteractiveElements page_wrapper None = map toCursorElement accepted
        \<and> subseq accepted wrapperScan)
   \<and> map toCursorElement wrapperScan
      = [\<lparr>el_selector = ''#wrap'', el_text = ''Attach file'', el_tagName = ''div'',
          el_hasOnClick = False, el_hasCursorPointer = True, el_hasTabIndex = False\<rparr>,
         \<lparr>el_selector = ''#wrap > i'', el_text = ''icon'', el_tagName = ''div'',
          el_hasOnClick = False, el_hasCursorPointer = True, el_hasTabIndex = False\<rparr>,
         \<lparr>el_selector = ''#wrap > span'', el_text = ''Attach'', el_tagName = ''div'',
          el_hasOnClick = False, el_hasCursorPointer = True, el_hasTabIndex = False\<rparr>,
         \<lparr>el_selector = ''#other'', el_text = ''Send'', el_tagName = ''div'',
          el_hasOnClick = True, el_hasCursorPointer = True, el_hasTabIndex = False\<rparr>]
   \<and> map c_order (assignOrder 0 wrapperScan) = [0, 1, 2, 3]
   \<and> map c_element (sortBy compareCandidates (assignOrder 0 wrapperScan)) = [1, 4, 2, 3]
   \<and> map c_element (selectCandidates wrapperContains
                       (sortBy compareCandidates (assignOrder 0 wrapperScan))) = [1, 4]
   \<and> sorted_wrt specPrecedes (sortBy compareCandidates (assignOrder 0 wrapperScan))"
proof -
  let ?doc = "\<lparr>cd_contains = wrapperContains, cd_scan = wrapperScan\<rparr>"
  have h: "cursorScan page_wrapper (case None of None \<Rightarrow> ''body'' | Some s \<Rightarrow> if s = [] then ''body'' else s)
             = Inr ?doc"
    by (simp add: page_wrapper_def)
  have ev: "findCursorInteractiveElements page_wrapper None
      = [\<lparr>el_selector = ''#wrap'', el_text = ''Attach file'', el_tagName = ''div'',
          el_hasOnClick = False, el_hasCursorPointer = True, el_hasTabIndex = False\<rparr>,
         \<lparr>el_selector = ''#other'', el_text = ''Send'', el_tagName = ''div'',
          el_hasOnClick = True, el_hasCursorPointer = True, el_hasTabIndex = False\<rparr>]"
    by code_simp
  have sc: "map toCursorElement wrapperScan
      = [\<lparr>el_selector = ''#wrap'', el_text = ''Attach file'', el_tagName = ''div'',
          el_hasOnClick = False, el_hasCursorPointer = True, el_hasTabIndex = False\<rparr>,
         \<lparr>el_selector = ''#wrap > i'', el_text = ''icon'', el_tagName = ''div'',
          el_hasOnClick = False, el_hasCursorPointer = True, el_hasTabIndex = False\<rparr>,
         \<lparr>el_selector = ''#wrap > span'', el_text = ''Attach'', el_tagName = ''div'',
          el_hasOnClick = False, el_hasCursorPointer = True, el_hasTabIndex = False\<rparr>,
         \<lparr>el_selector = ''#other'', el_text = ''Send'', el_tagName = ''div'',
          el_hasOnClick = True, el_hasCursorPointer = True, el_hasTabIndex = False\<rparr>]"
    by code_simp
  have l: "length wrapperScan = 4" by (simp add: wrapperScan_def)
  have u: "[0..<4] = [0, 1, 2, 3]" by (simp add: upt_rec)
  have w: "map c_element (sortBy compareCandidates (assignOrder 0 wrapperScan)) = [1, 4, 2, 3]"
    by code_simp
  have w2: "map c_element (selectCandidates wrapperContains
                       (sortBy compareCandidates (assignOrder 0 wrapperScan))) = [1, 4]"
    by code_simp
  have sel: "cd_contains ?doc = wrapperContains" "cd_scan ?doc = wrapperScan" by simp_all
  from cursor_detector_containment_and_order [OF h, unfolded sel]
  have "\<exists>accepted.
          findCursorInteractiveElements page_wrapper None = map toCursorElement accepted
        \<and> subseq accepted wrapperScan"
    and "map c_order (assignOrder 0 wrapperScan) = [0..<length wrapperScan]"
    and "sorted_wrt specPrecedes (sortBy compareCandidates (assignOrder 0 wrapperScan))"
    by blast+
  then have "(\<exists>accepted.
          findCursorInteractiveElements page_wrapper None = map toCursorElement accepted
        \<and> subseq accepted wrapperScan)
      \<and> map c_order (assignOrder 0 wrapperScan) = [0, 1, 2, 3]
      \<and> sorted_wrt specPrecedes (sortBy compareCandidates (assignOrder 0 wrapperScan))"
    unfolding l u by blast
  moreover have "cursorScan page_wrapper ''body'' = Inr ?doc" using h by simp
  ultimately show ?thesis using ev sc w w2 by blast
qed

end
